theory Spec2Isabelle
  imports Main "HOL-Library.Multiset" "HOL-Library.Sublist"
    "HOL-Library.Char_ord" "HOL-Library.List_Lexorder"
begin

section \<open>Values of a parsed YAML document\<close>

text \<open>
  The functions of \<^verbatim>\<open>tools/config-utils/cli.py\<close> work on what \<^verbatim>\<open>yaml.safe_load\<close>
  returns: \<^verbatim>\<open>None\<close>, booleans, integers, strings, lists and dictionaries with string
  keys. Floats, dates and YAML sets are left out of the model. A Python \<^verbatim>\<open>dict\<close> keeps
  its entries in insertion order and has no two entries with the same key; it is modelled
  as an association list in insertion order. Documents are trees: no object is reachable
  along two paths.
\<close>

datatype scalar = SNone | SBool bool | SInt int | SStr string

datatype pyval =
    PScalar scalar
  | PList "pyval list"
  | PDict "(string \<times> pyval) list"

type_synonym pydict = "(string \<times> pyval) list"

datatype py_error = TypeError | KeyError | IndexError

text \<open>Python's \<^verbatim>\<open>==\<close> on scalars: \<^verbatim>\<open>bool\<close> is a subclass of \<^verbatim>\<open>int\<close>, so
  \<^verbatim>\<open>True == 1\<close> and \<^verbatim>\<open>False == 0\<close>.\<close>

fun scalar_num :: "scalar \<Rightarrow> int option" where
  "scalar_num (SBool b) = Some (if b then 1 else 0)"
| "scalar_num (SInt i) = Some i"
| "scalar_num _ = None"

fun scalar_eq :: "scalar \<Rightarrow> scalar \<Rightarrow> bool" where
  "scalar_eq SNone SNone = True"
| "scalar_eq (SStr s) (SStr t) = (s = t)"
| "scalar_eq a b = (case (scalar_num a, scalar_num b) of
                      (Some i, Some j) \<Rightarrow> i = j
                    | _ \<Rightarrow> False)"

text \<open>Python's \<^verbatim>\<open>==\<close> on values: lists compare element by element, dictionaries compare
  as sets of entries, whatever the insertion order.\<close>

fun py_eq :: "pyval \<Rightarrow> pyval \<Rightarrow> bool" where
  "py_eq (PScalar a) (PScalar b) = scalar_eq a b"
| "py_eq (PList xs) (PList ys) = list_all2 py_eq xs ys"
| "py_eq (PDict d) (PDict e) =
     (length d = length e \<and>
      list_all (\<lambda>kv. case map_of e (fst kv) of
                        None \<Rightarrow> False
                      | Some w \<Rightarrow> py_eq (snd kv) w) d)"
| "py_eq _ _ = False"

text \<open>Truth value of a Python object, as \<^verbatim>\<open>or\<close> and \<^verbatim>\<open>if\<close> test it.\<close>

fun truthy :: "pyval \<Rightarrow> bool" where
  "truthy (PScalar SNone) = False"
| "truthy (PScalar (SBool b)) = b"
| "truthy (PScalar (SInt i)) = (i \<noteq> 0)"
| "truthy (PScalar (SStr s)) = (s \<noteq> [])"
| "truthy (PList xs) = (xs \<noteq> [])"
| "truthy (PDict d) = (d \<noteq> [])"

fun is_dict :: "pyval \<Rightarrow> bool" where
  "is_dict (PDict d) = True"
| "is_dict _ = False"

section \<open>Dictionary and string primitives\<close>

text \<open>\<^verbatim>\<open>d[k] = v\<close>: an existing key keeps its position, a new key goes last.\<close>

fun dict_set :: "(string \<times> 'v) list \<Rightarrow> string \<Rightarrow> 'v \<Rightarrow> (string \<times> 'v) list" where
  "dict_set [] k v = [(k, v)]"
| "dict_set ((k', v') # d) k v =
     (if k' = k then (k', v) # d else (k', v') # dict_set d k v)"

text \<open>\<^verbatim>\<open>d.update(other)\<close>: one assignment per entry of \<^verbatim>\<open>other\<close>, in its order.\<close>

definition dict_update :: "(string \<times> 'v) list \<Rightarrow> (string \<times> 'v) list \<Rightarrow> (string \<times> 'v) list" where
  "dict_update d other = fold (\<lambda>kv acc. dict_set acc (fst kv) (snd kv)) other d"

text \<open>\<^verbatim>\<open>d[k]\<close> raises \<^verbatim>\<open>KeyError\<close> on a missing key.\<close>

definition dict_get :: "(string \<times> 'v) list \<Rightarrow> string \<Rightarrow> py_error + 'v" where
  "dict_get d k = (case map_of d k of None \<Rightarrow> Inl KeyError | Some v \<Rightarrow> Inr v)"

definition dict_has :: "(string \<times> 'v) list \<Rightarrow> string \<Rightarrow> bool" where
  "dict_has d k = (map_of d k \<noteq> None)"

text \<open>The separator is the default \<^verbatim>\<open>sep='.'\<close> of both functions; no caller passes
  another one.\<close>

definition sep :: char where
  "sep = CHR ''.''"

text \<open>\<^verbatim>\<open>s.split('.')\<close>: always at least one part, one more than the number of dots.\<close>

fun split :: "string \<Rightarrow> string list" where
  "split [] = [[]]"
| "split (c # cs) =
     (if c = sep then [] # split cs
      else (case split cs of
              [] \<Rightarrow> [[c]]
            | p # ps \<Rightarrow> (c # p) # ps))"

text \<open>\<^verbatim>\<open>f"{parent_key}{sep}{key}" if parent_key else key\<close>\<close>

definition join_key :: "string \<Rightarrow> string \<Rightarrow> string" where
  "join_key parent_key key = (if parent_key \<noteq> [] then parent_key @ sep # key else key)"

section \<open>flatten\_dict\<close>

text \<open>
  \<^verbatim>\<open>flatten_dict(data, depth, parent_key)\<close>, lines 13 to 48. \<open>flatten_loop\<close> is the
  \<^verbatim>\<open>for\<close> loop over \<^verbatim>\<open>data.items()\<close> with the accumulator \<^verbatim>\<open>items\<close>. The unused
  local \<^verbatim>\<open>current_depth\<close> is dropped.
\<close>

fun flatten_dict :: "pydict \<Rightarrow> int \<Rightarrow> string \<Rightarrow> pydict"
  and flatten_loop :: "pydict \<Rightarrow> int \<Rightarrow> string \<Rightarrow> pydict \<Rightarrow> pydict" where
  "flatten_dict data depth parent_key =
     (if depth = 1 \<and> parent_key = [] then data
      else flatten_loop data depth parent_key [])"
| "flatten_loop [] depth parent_key items = items"
| "flatten_loop ((key, val) # rest) depth parent_key items =
     (let new_key = join_key parent_key key;
          new_depth = int (length (split new_key))
      in if depth > 0 \<and> new_depth \<ge> depth
         then flatten_loop rest depth parent_key (dict_set items new_key val)
         else (case val of
                 PDict sub \<Rightarrow>
                   if sub \<noteq> []
                   then flatten_loop rest depth parent_key
                          (dict_update items (flatten_dict sub depth new_key))
                   else flatten_loop rest depth parent_key (dict_set items new_key val)
               | _ \<Rightarrow> flatten_loop rest depth parent_key (dict_set items new_key val)))"

section \<open>unflatten\_dict\<close>

text \<open>
  Lines 62 to 75. \<open>set_path\<close> is the inner loop over \<^verbatim>\<open>parts[:-1]\<close> followed by
  \<^verbatim>\<open>current[parts[-1]] = value\<close>: it walks down from \<^verbatim>\<open>current\<close>, creating an empty
  dictionary for a missing part. When \<^verbatim>\<open>current[part]\<close> is not a dictionary, the next
  operation on it (\<^verbatim>\<open>part not in current\<close>, \<^verbatim>\<open>current[part]\<close> or the item assignment)
  raises \<^verbatim>\<open>TypeError\<close> for every scalar and list.
\<close>

fun set_path :: "string list \<Rightarrow> pyval \<Rightarrow> pydict \<Rightarrow> py_error + pydict" where
  "set_path [] val current = Inl IndexError"
| "set_path [last_part] val current = Inr (dict_set current last_part val)"
| "set_path (part # more) val current =
     (case map_of current part of
        None \<Rightarrow>
          (case set_path more val [] of
             Inl e \<Rightarrow> Inl e
           | Inr sub \<Rightarrow> Inr (dict_set current part (PDict sub)))
      | Some (PDict sub) \<Rightarrow>
          (case set_path more val sub of
             Inl e \<Rightarrow> Inl e
           | Inr sub' \<Rightarrow> Inr (dict_set current part (PDict sub')))
      | Some _ \<Rightarrow> Inl TypeError)"

fun unflatten_loop :: "pydict \<Rightarrow> pydict \<Rightarrow> py_error + pydict" where
  "unflatten_loop [] result = Inr result"
| "unflatten_loop ((key, val) # rest) result =
     (case set_path (split key) val result of
        Inl e \<Rightarrow> Inl e
      | Inr result' \<Rightarrow> unflatten_loop rest result')"

definition unflatten_dict :: "pydict \<Rightarrow> py_error + pydict" where
  "unflatten_dict data = unflatten_loop data []"

section \<open>load\_yaml\_file\<close>

text \<open>
  Lines 78 to 105. Opening and parsing the file is outside the model; what it gives is
  the argument: the file is missing, the parser raised \<^verbatim>\<open>yaml.YAMLError\<close>, or a value
  came back. Each \<^verbatim>\<open>sys.exit(1)\<close> is an error value naming the message printed.
\<close>

datatype parse_outcome = FileMissing | ParserError | Parsed pyval

datatype load_error = FileNotFoundMsg | InvalidYamlMsg | RootNotMappingMsg

fun load_yaml_file :: "parse_outcome \<Rightarrow> load_error + pydict" where
  "load_yaml_file FileMissing = Inl FileNotFoundMsg"
| "load_yaml_file ParserError = Inl InvalidYamlMsg"
| "load_yaml_file (Parsed root) =
     (let data = (if truthy root then root else PDict [])
      in case data of
           PDict d \<Rightarrow> Inr d
         | _ \<Rightarrow> Inl RootNotMappingMsg)"

section \<open>make\_hashable\<close>

text \<open>
  Lines 108 to 125. The result is a scalar or a tuple. \<^verbatim>\<open>sorted\<close> orders the
  \<^verbatim>\<open>(k, make_hashable(v))\<close> pairs of a dictionary; its keys differ pairwise, so the
  order is the order of the keys.
\<close>

datatype hashable = HScalar scalar | HTuple "hashable list"

fun make_hashable :: "pyval \<Rightarrow> hashable" where
  "make_hashable (PDict d) =
     HTuple (map (\<lambda>kh. HTuple [HScalar (SStr (fst kh)), snd kh])
               (sort_key fst (map (\<lambda>kv. (fst kv, make_hashable (snd kv))) d)))"
| "make_hashable (PList xs) = HTuple (map make_hashable xs)"
| "make_hashable (PScalar a) = HScalar a"

text \<open>Python's \<^verbatim>\<open>==\<close> on these values, which a \<^verbatim>\<open>set\<close> uses for membership.\<close>

fun hash_eq :: "hashable \<Rightarrow> hashable \<Rightarrow> bool" where
  "hash_eq (HScalar a) (HScalar b) = scalar_eq a b"
| "hash_eq (HTuple xs) (HTuple ys) = list_all2 hash_eq xs ys"
| "hash_eq _ _ = False"

definition item_eq :: "string \<times> hashable \<Rightarrow> string \<times> hashable \<Rightarrow> bool" where
  "item_eq a b = (fst a = fst b \<and> hash_eq (snd a) (snd b))"

section \<open>Python sets\<close>

text \<open>
  A \<^verbatim>\<open>set\<close> is a list of pairwise unequal elements. The order in which a \<^verbatim>\<open>for\<close> loop
  visits a set is the order of the slots of its hash table, which the language leaves
  open: \<open>set_iter\<close> takes the slot of each element as a parameter.
\<close>

definition set_member :: "('a \<Rightarrow> 'a \<Rightarrow> bool) \<Rightarrow> 'a \<Rightarrow> 'a list \<Rightarrow> bool" where
  "set_member eq x s = list_ex (eq x) s"

definition set_make :: "('a \<Rightarrow> 'a \<Rightarrow> bool) \<Rightarrow> 'a list \<Rightarrow> 'a list" where
  "set_make eq xs = fold (\<lambda>x s. if set_member eq x s then s else s @ [x]) xs []"

definition set_union :: "('a \<Rightarrow> 'a \<Rightarrow> bool) \<Rightarrow> 'a list \<Rightarrow> 'a list \<Rightarrow> 'a list" where
  "set_union eq s t = s @ filter (\<lambda>x. \<not> set_member eq x s) t"

definition set_inter :: "('a \<Rightarrow> 'a \<Rightarrow> bool) \<Rightarrow> 'a list \<Rightarrow> 'a list \<Rightarrow> 'a list" where
  "set_inter eq s t = filter (\<lambda>x. set_member eq x t) s"

definition set_diff :: "('a \<Rightarrow> 'a \<Rightarrow> bool) \<Rightarrow> 'a list \<Rightarrow> 'a list \<Rightarrow> 'a list" where
  "set_diff eq s t = filter (\<lambda>x. \<not> set_member eq x t) s"

definition set_symdiff :: "('a \<Rightarrow> 'a \<Rightarrow> bool) \<Rightarrow> 'a list \<Rightarrow> 'a list \<Rightarrow> 'a list" where
  "set_symdiff eq s t = set_diff eq s t @ set_diff eq t s"

definition set_iter :: "('a \<Rightarrow> nat) \<Rightarrow> 'a list \<Rightarrow> 'a list" where
  "set_iter slot s = sort_key slot s"

record hashing =
  key_slot :: "string \<Rightarrow> nat"
  item_slot :: "string \<times> hashable \<Rightarrow> nat"

section \<open>perform\_set\_operation\<close>

text \<open>The loop of lines 171 to 176, 187 to 193 and 205 to 210: each key of the result
  set takes its value from \<^verbatim>\<open>flat1\<close> when it is there, from \<^verbatim>\<open>flat2\<close> otherwise.\<close>

fun prefer_first :: "pydict \<Rightarrow> pydict \<Rightarrow> string list \<Rightarrow> pydict \<Rightarrow> py_error + pydict" where
  "prefer_first flat1 flat2 [] result = Inr result"
| "prefer_first flat1 flat2 (key # keys) result =
     (case (if dict_has flat1 key then dict_get flat1 key else dict_get flat2 key) of
        Inl e \<Rightarrow> Inl e
      | Inr v \<Rightarrow> prefer_first flat1 flat2 keys (dict_set result key v))"

text \<open>The comprehension \<^verbatim>\<open>{k: flat[k] for k, _ in result_items}\<close>.\<close>

fun take_from :: "pydict \<Rightarrow> string list \<Rightarrow> pydict \<Rightarrow> py_error + pydict" where
  "take_from flat [] result = Inr result"
| "take_from flat (key # keys) result =
     (case dict_get flat key of
        Inl e \<Rightarrow> Inl e
      | Inr v \<Rightarrow> take_from flat keys (dict_set result key v))"

text \<open>Lines 148 to 212: the mapping \<^verbatim>\<open>result\<close> before the last step.\<close>

definition result_mapping ::
  "hashing \<Rightarrow> pydict \<Rightarrow> pydict \<Rightarrow> string \<Rightarrow> string \<Rightarrow> int \<Rightarrow> py_error + pydict" where
  "result_mapping h file1_data file2_data operation compare_mode depth =
     (let flat1 = flatten_dict file1_data depth [];
          flat2 = flatten_dict file2_data depth []
      in if compare_mode = ''keys'' then
           (let keys1 = set_make (=) (map fst flat1);
                keys2 = set_make (=) (map fst flat2);
                result_keys =
                  (if operation = ''union'' then set_union (=) keys1 keys2
                   else if operation = ''intersect'' then set_inter (=) keys1 keys2
                   else if operation = ''diff'' then set_diff (=) keys1 keys2
                   else if operation = ''rdiff'' then set_diff (=) keys2 keys1
                   else if operation = ''symdiff'' then set_symdiff (=) keys1 keys2
                   else [])
            in prefer_first flat1 flat2 (set_iter (key_slot h) result_keys) [])
         else
           (let items1 = set_make item_eq (map (\<lambda>kv. (fst kv, make_hashable (snd kv))) flat1);
                items2 = set_make item_eq (map (\<lambda>kv. (fst kv, make_hashable (snd kv))) flat2)
            in if operation = ''union'' then
                 prefer_first flat1 flat2
                   (map fst (set_iter (item_slot h) (set_union item_eq items1 items2))) []
               else if operation = ''intersect'' then
                 take_from flat1
                   (map fst (set_iter (item_slot h) (set_inter item_eq items1 items2))) []
               else if operation = ''diff'' then
                 take_from flat1
                   (map fst (set_iter (item_slot h) (set_diff item_eq items1 items2))) []
               else if operation = ''rdiff'' then
                 take_from flat2
                   (map fst (set_iter (item_slot h) (set_diff item_eq items2 items1))) []
               else if operation = ''symdiff'' then
                 prefer_first flat1 flat2
                   (map fst (set_iter (item_slot h) (set_symdiff item_eq items1 items2))) []
               else Inr []))"

text \<open>Lines 214 to 220.\<close>

definition perform_set_operation ::
  "hashing \<Rightarrow> pydict \<Rightarrow> pydict \<Rightarrow> string \<Rightarrow> string \<Rightarrow> int \<Rightarrow> py_error + pydict" where
  "perform_set_operation h file1_data file2_data operation compare_mode depth =
     (case result_mapping h file1_data file2_data operation compare_mode depth of
        Inl e \<Rightarrow> Inl e
      | Inr result \<Rightarrow> if depth > 1 then unflatten_dict result else Inr result)"

section \<open>The command\<close>

text \<open>
  \<^verbatim>\<open>command\<close> of \<^verbatim>\<open>create_set_operation_command\<close>, lines 391 to 404, up to the
  \<^verbatim>\<open>yaml.dump\<close> of the result. \<^verbatim>\<open>sys.exit\<close> raises \<^verbatim>\<open>SystemExit\<close>, which
  \<^verbatim>\<open>except Exception\<close> does not catch; any other exception is printed and the process
  exits with status 1.
\<close>

datatype exit = LoadExit load_error | ErrorExit py_error

definition command ::
  "hashing \<Rightarrow> string \<Rightarrow> parse_outcome \<Rightarrow> parse_outcome \<Rightarrow> string \<Rightarrow> int \<Rightarrow> exit + pydict" where
  "command h operation file1 file2 compare depth =
     (case load_yaml_file file1 of
        Inl e \<Rightarrow> Inl (LoadExit e)
      | Inr file1_data \<Rightarrow>
          (case load_yaml_file file2 of
             Inl e \<Rightarrow> Inl (LoadExit e)
           | Inr file2_data \<Rightarrow>
               (case perform_set_operation h file1_data file2_data operation compare depth of
                  Inl e \<Rightarrow> Inl (ErrorExit e)
                | Inr result \<Rightarrow> Inr result)))"

section \<open>Named inputs\<close>

text \<open>The hashing in which every slot is 0: a set is visited in the order in which it
  was built.\<close>

definition slot0 :: hashing where
  "slot0 = \<lparr>key_slot = (\<lambda>k. 0), item_slot = (\<lambda>i. 0)\<rparr>"

text \<open>The operation names of the five commands.\<close>

definition operations :: "string set" where
  "operations = {''union'', ''intersect'', ''diff'', ''rdiff'', ''symdiff''}"

section \<open>Auxiliary notions for the proofs\<close>

text \<open>Assigning \<open>g k\<close> to each key \<open>k\<close> of a list in turn, as the loops that build
  \<^verbatim>\<open>result\<close> do once their look-ups are known to succeed.\<close>

definition assign :: "(string \<Rightarrow> 'v) \<Rightarrow> string list \<Rightarrow> (string \<times> 'v) list \<Rightarrow> (string \<times> 'v) list" where
  "assign g ks res = fold (\<lambda>k acc. dict_set acc k (g k)) ks res"

text \<open>A mapping that is not empty: what line 42 tests with
  \<^verbatim>\<open>isinstance(value, dict) and value\<close>.\<close>

definition nonempty_mapping :: "pyval \<Rightarrow> bool" where
  "nonempty_mapping v = (is_dict v \<and> truthy v)"

text \<open>A hashing that visits keys by their length and items by the length of the key,
  longest last.\<close>

definition slot_len :: hashing where
  "slot_len = \<lparr>key_slot = length, item_slot = (\<lambda>i. length (fst i))\<rparr>"

text \<open>A flat map is free of conflicts when the parts of no key are a proper prefix of the
  parts of another key.\<close>

definition conflict_free :: "pydict \<Rightarrow> bool" where
  "conflict_free d =
     list_all (\<lambda>k. list_all (\<lambda>k'. \<not> strict_prefix (split k) (split k')) (map fst d)) (map fst d)"

text \<open>The walk of \<open>set_path\<close> along \<open>parts\<close> meets no value other than a dictionary
  before the last part.\<close>

fun walkable :: "string list \<Rightarrow> pydict \<Rightarrow> bool" where
  "walkable [] current = False"
| "walkable [last_part] current = True"
| "walkable (part # others) current =
     (case map_of current part of
        None \<Rightarrow> True
      | Some (PDict sub) \<Rightarrow> walkable others sub
      | Some _ \<Rightarrow> False)"

section \<open>flatten as the specification words it\<close>

text \<open>
  Section 4.1 of the specification, with a flat map as a partial function from flat keys to
  values, since the specification gives the order of the keys no meaning. The number of
  segments of a key is one more than its number of dots. For each key \<open>k\<close> with value
  \<open>v\<close> at path \<open>p\<close> the candidate key is \<open>p.k\<close>, or \<open>k\<close> when \<open>p\<close> is empty; when the
  depth is positive and the segments of the candidate have reached it, the entry is emitted
  as it is; else a non-empty mapping is walked with the candidate as the new path and its
  results are merged into the accumulator; else the entry is emitted directly.
\<close>

definition spec_segments :: "string \<Rightarrow> nat" where
  "spec_segments s = Suc (count_list s (CHR ''.''))"

fun spec_walk :: "int \<Rightarrow> string \<Rightarrow> pydict \<Rightarrow> (string \<rightharpoonup> pyval) \<Rightarrow> (string \<rightharpoonup> pyval)" where
  "spec_walk depth p [] acc = acc"
| "spec_walk depth p ((k, v) # es) acc =
     (let new_key = (if p = [] then k else p @ ''.'' @ k)
      in spec_walk depth p es
           (if depth > 0 \<and> int (spec_segments new_key) \<ge> depth then acc(new_key \<mapsto> v)
            else (case v of
                    PDict sub \<Rightarrow>
                      if sub \<noteq> [] then acc ++ spec_walk depth new_key sub Map.empty
                      else acc(new_key \<mapsto> v)
                  | _ \<Rightarrow> acc(new_key \<mapsto> v))))"

definition spec_flatten :: "pydict \<Rightarrow> int \<Rightarrow> (string \<rightharpoonup> pyval)" where
  "spec_flatten d depth = spec_walk depth [] d Map.empty"

section \<open>flatten\_dict on a store of objects\<close>

text \<open>
  Whether \<^verbatim>\<open>flatten_dict\<close> returns its argument or a new object is a question about
  object identity, which the value model above cannot ask. Here a dictionary is an object
  in a store, addressed by its index; a value is a scalar, a list, or a reference to a
  dictionary. Allocation appends to the store. The same lines 26 to 48 are modelled again:
  \<^verbatim>\<open>data.copy()\<close> allocates a dictionary with the entries of \<^verbatim>\<open>data\<close>, \<^verbatim>\<open>items = {}\<close>
  allocates an empty one, and assignments update the object in place. A store can hold a
  cycle, on which Python ends with \<^verbatim>\<open>RecursionError\<close>: the recursion takes fuel, and
  \<open>None\<close> is that outcome.
\<close>

datatype oval = OScalar scalar | OList "oval list" | ORef nat

type_synonym store = "(string \<times> oval) list list"

definition alloc :: "store \<Rightarrow> (string \<times> oval) list \<Rightarrow> store \<times> nat" where
  "alloc s entries = (s @ [entries], length s)"

fun flatten_dict_st :: "nat \<Rightarrow> store \<Rightarrow> nat \<Rightarrow> int \<Rightarrow> string \<Rightarrow> (store \<times> nat) option"
  and flatten_loop_st ::
    "nat \<Rightarrow> store \<Rightarrow> (string \<times> oval) list \<Rightarrow> int \<Rightarrow> string \<Rightarrow> nat \<Rightarrow> (store \<times> nat) option"
  where
  "flatten_dict_st fuel s data depth parent_key =
     (if depth = 1 \<and> parent_key = [] then Some (alloc s (s ! data))
      else (case alloc s [] of
              (s1, items) \<Rightarrow> flatten_loop_st fuel s1 (s1 ! data) depth parent_key items))"
| "flatten_loop_st fuel s [] depth parent_key items = Some (s, items)"
| "flatten_loop_st fuel s ((key, val) # rest) depth parent_key items =
     (let new_key = join_key parent_key key;
          new_depth = int (length (split new_key))
      in if depth > 0 \<and> new_depth \<ge> depth
         then flatten_loop_st fuel (s[items := dict_set (s ! items) new_key val])
                rest depth parent_key items
         else (case val of
                 ORef sub \<Rightarrow>
                   if s ! sub \<noteq> []
                   then (case fuel of
                           0 \<Rightarrow> None
                         | Suc fuel' \<Rightarrow>
                             (case flatten_dict_st fuel' s sub depth new_key of
                                None \<Rightarrow> None
                              | Some (s', flat) \<Rightarrow>
                                  flatten_loop_st fuel
                                    (s'[items := dict_update (s' ! items) (s' ! flat)])
                                    rest depth parent_key items))
                   else flatten_loop_st fuel (s[items := dict_set (s ! items) new_key val])
                          rest depth parent_key items
               | _ \<Rightarrow> flatten_loop_st fuel (s[items := dict_set (s ! items) new_key val])
                        rest depth parent_key items))"

section \<open>Notions for the round trip\<close>

text \<open>A value is well formed when no dictionary in it has two entries with the same key,
  as Python guarantees.\<close>

fun wf_val :: "pyval \<Rightarrow> bool" where
  "wf_val (PScalar a) = True"
| "wf_val (PList xs) = list_all wf_val xs"
| "wf_val (PDict d) = (distinct (map fst d) \<and> list_all (\<lambda>kv. wf_val (snd kv)) d)"

text \<open>\<open>descends depth lvl v\<close>: an entry at nesting level \<open>lvl\<close> (1 at the root) with value
  \<open>v\<close> is below the depth limit and \<open>v\<close> is a non-empty mapping.\<close>

definition descends :: "int \<Rightarrow> nat \<Rightarrow> pyval \<Rightarrow> bool" where
  "descends depth lvl v = (\<not> (0 < depth \<and> depth \<le> int lvl) \<and> nonempty_mapping v)"

text \<open>No key that flattening joins contains the separator.\<close>

fun keys_plain :: "int \<Rightarrow> nat \<Rightarrow> pydict \<Rightarrow> bool" where
  "keys_plain depth lvl [] = True"
| "keys_plain depth lvl ((k, v) # es) =
     (sep \<notin> set k
      \<and> (case v of
            PDict sub \<Rightarrow> (if descends depth lvl v then keys_plain depth (Suc lvl) sub else True)
          | _ \<Rightarrow> True)
      \<and> keys_plain depth lvl es)"

text \<open>The root does not bind the empty string to a mapping that flattening walks into.\<close>

definition root_ok :: "int \<Rightarrow> pydict \<Rightarrow> bool" where
  "root_ok depth d = list_all (\<lambda>kv. \<not> (fst kv = [] \<and> descends depth 1 (snd kv))) d"

text \<open>The flat entries of a document with each key as its list of parts.\<close>

fun paths_of :: "int \<Rightarrow> nat \<Rightarrow> pydict \<Rightarrow> (string list \<times> pyval) list" where
  "paths_of depth lvl [] = []"
| "paths_of depth lvl ((k, v) # es) =
     (case v of
        PDict sub \<Rightarrow>
          (if descends depth lvl v
           then map (\<lambda>pw. (k # fst pw, snd pw)) (paths_of depth (Suc lvl) sub)
           else [([k], v)])
      | _ \<Rightarrow> [([k], v)])
     @ paths_of depth lvl es"

text \<open>\<open>unflatten_loop\<close> on keys that are already split.\<close>

fun unflatten_paths :: "(string list \<times> pyval) list \<Rightarrow> pydict \<Rightarrow> py_error + pydict" where
  "unflatten_paths [] result = Inr result"
| "unflatten_paths ((parts, val) # rest) result =
     (case set_path parts val result of
        Inl e \<Rightarrow> Inl e
      | Inr result' \<Rightarrow> unflatten_paths rest result')"

text \<open>The entries under the first part \<open>k\<close>, without that part.\<close>

definition tails :: "string \<Rightarrow> (string list \<times> pyval) list \<Rightarrow> (string list \<times> pyval) list" where
  "tails k ps = map (\<lambda>pw. (tl (fst pw), snd pw))
                  (filter (\<lambda>pw. fst pw \<noteq> [] \<and> hd (fst pw) = k \<and> tl (fst pw) \<noteq> []) ps)"

text \<open>The parts of a parent key; the empty parent key stands for no parent.\<close>

definition parts_of :: "string \<Rightarrow> string list" where
  "parts_of p = (if p = [] then [] else split p)"

definition split_keys :: "pydict \<Rightarrow> (string list \<times> pyval) list" where
  "split_keys xs = map (\<lambda>kv. (split (fst kv), snd kv)) xs"

definition under :: "string list \<Rightarrow> (string list \<times> pyval) list \<Rightarrow> (string list \<times> pyval) list" where
  "under pre ps = map (\<lambda>pw. (pre @ fst pw, snd pw)) ps"

section \<open>Notions for comparing two runs of unflatten\_dict\<close>

text \<open>Lists of split keys with values: no path twice with two values, no path a proper
  prefix of another, and two lists with the same paths and related values.\<close>

definition functional_paths :: "(string list \<times> pyval) list \<Rightarrow> bool" where
  "functional_paths P = (\<forall>pw\<in>set P. \<forall>qw\<in>set P. fst pw = fst qw \<longrightarrow> snd pw = snd qw)"

definition prefix_free_paths :: "(string list \<times> pyval) list \<Rightarrow> bool" where
  "prefix_free_paths P = (\<forall>pw\<in>set P. \<forall>qw\<in>set P. \<not> strict_prefix (fst pw) (fst qw))"

definition related_paths ::
  "(pyval \<Rightarrow> pyval \<Rightarrow> bool) \<Rightarrow> (string list \<times> pyval) list \<Rightarrow> (string list \<times> pyval) list \<Rightarrow> bool" where
  "related_paths E P Q =
     ((\<forall>pw\<in>set P. \<exists>qw\<in>set Q. fst qw = fst pw \<and> E (snd pw) (snd qw))
    \<and> (\<forall>qw\<in>set Q. \<exists>pw\<in>set P. fst pw = fst qw \<and> E (snd pw) (snd qw)))"

text \<open>Equality of the \<open>make_hashable\<close> forms.\<close>

definition same_hashable :: "pyval \<Rightarrow> pyval \<Rightarrow> bool" where
  "same_hashable v w = hash_eq (make_hashable v) (make_hashable w)"

section \<open>Facts about the primitives\<close>

lemma map_of_dict_set: "map_of (dict_set d k v) = (map_of d)(k \<mapsto> v)"
  by (induction d) (auto simp: fun_eq_iff)

lemma keys_dict_set: "set (map fst (dict_set d k v)) = insert k (set (map fst d))"
  by (simp add: map_of_dict_set flip: dom_map_of_conv_image_fst)

lemma distinct_dict_set: "distinct (map fst d) \<Longrightarrow> distinct (map fst (dict_set d k v))"
  by (induction d) (auto simp: keys_dict_set simp flip: set_map)

lemma dict_set_new: "k \<notin> set (map fst d) \<Longrightarrow> dict_set d k v = d @ [(k, v)]"
  by (induction d) auto

lemma dict_set_same: "map_of d k = Some v \<Longrightarrow> dict_set d k v = d"
  by (induction d) (auto split: if_splits)

lemma set_dict_set: "set (dict_set d k v) \<subseteq> insert (k, v) (set d)"
  by (induction d) (auto split: if_splits)

lemma map_of_dict_update: "map_of (dict_update d other) = map_of d ++ map_of (rev other)"
  unfolding dict_update_def
  by (induction other arbitrary: d) (auto simp: map_of_dict_set fun_eq_iff map_add_def split: option.splits)

lemma keys_dict_update: "set (map fst (dict_update d other)) = set (map fst d) \<union> set (map fst other)"
  unfolding dict_update_def
  by (induction other arbitrary: d) (auto simp: keys_dict_set simp del: set_map)

lemma distinct_dict_update: "distinct (map fst d) \<Longrightarrow> distinct (map fst (dict_update d other))"
  unfolding dict_update_def
  by (induction other arbitrary: d) (auto simp: distinct_dict_set)

lemma set_dict_update: "set (dict_update d other) \<subseteq> set d \<union> set other"
  unfolding dict_update_def
proof (induction other arbitrary: d)
  case Nil
  then show ?case by simp
next
  case (Cons a other)
  show ?case using Cons[of "dict_set d (fst a) (snd a)"] set_dict_set[of d "fst a" "snd a"]
    by auto
qed

lemma split_nonempty: "split s \<noteq> []"
  by (induction s) (auto split: list.splits)

lemma length_split_pos: "1 \<le> length (split s)"
  using split_nonempty[of s] by (cases "split s") auto

lemma split_append: "split (a @ sep # b) = split a @ split b"
  by (induction a) (auto split: list.splits simp: split_nonempty)

lemma split_no_sep: "sep \<notin> set s \<Longrightarrow> split s = [s]"
  by (induction s) (auto split: list.splits)

lemma distinct_flatten:
  "distinct (map fst data) \<Longrightarrow> distinct (map fst (flatten_dict data depth parent_key))"
  "distinct (map fst items) \<Longrightarrow> distinct (map fst (flatten_loop data depth parent_key items))"
proof (induction data depth parent_key and data depth parent_key items rule: flatten_dict_flatten_loop.induct)
  case (1 data depth parent_key)
  then show ?case by simp
next
  case (2 depth parent_key items)
  then show ?case by simp
next
  case (3 key val rest depth parent_key items)
  then show ?case
    by (auto simp: Let_def distinct_dict_set distinct_dict_update split: pyval.splits)
qed

section \<open>Unsupported operation and compare mode\<close>

lemma set_iter_Nil: "set_iter slot [] = []"
  by (simp add: set_iter_def)


lemma result_mapping_unsupported:
  assumes "operation \<notin> operations"
  shows "result_mapping h file1_data file2_data operation compare_mode depth = Inr []"
  using assms
  by (simp add: result_mapping_def operations_def Let_def set_iter_Nil)




section \<open>Loading\<close>

lemma load_yaml_file_mapping:
  "load_yaml_file (Parsed root) = Inr d \<Longrightarrow> root = PDict d \<or> (\<not> truthy root \<and> d = [])"
  by (cases root) (auto simp: Let_def split: if_splits pyval.splits)

text \<open>
  C4, as amended. A parsed root that is not a mapping and is true in Python's sense (a
  non-empty list or string, a non-zero number, \<^verbatim>\<open>True\<close>) ends the command with the
  message about the root, for either file, and \<open>perform_set_operation\<close> is not reached.
  A \<^verbatim>\<open>None\<close> root, which an empty file gives, is loaded as the empty mapping by
  \<^verbatim>\<open>or {}\<close>. A load that succeeds gives a mapping.
\<close>

theorem C4_truthy_non_mapping_root_fatal:
  assumes "truthy root" and "\<not> is_dict root"
  shows "load_yaml_file (Parsed root) = Inl RootNotMappingMsg
       \<and> command h operation (Parsed root) file2 compare depth = Inl (LoadExit RootNotMappingMsg)
       \<and> (\<forall>d. load_yaml_file file1 = Inr d \<longrightarrow>
            command h operation file1 (Parsed root) compare depth = Inl (LoadExit RootNotMappingMsg))
       \<and> load_yaml_file (Parsed (PScalar SNone)) = Inr []
       \<and> (\<forall>file d. load_yaml_file file = Inr d \<longrightarrow>
            (\<exists>r. file = Parsed r \<and> (r = PDict d \<or> (\<not> truthy r \<and> d = []))))"
proof -
  have 1: "load_yaml_file (Parsed root) = Inl RootNotMappingMsg"
    using assms by (cases root) (auto simp: Let_def)
  have 2: "\<exists>r. f = Parsed r \<and> (r = PDict d \<or> (\<not> truthy r \<and> d = []))"
    if "load_yaml_file f = Inr d" for f d
    using that load_yaml_file_mapping by (cases f) auto
  show ?thesis using 1 2 by (auto simp: command_def)
qed

theorem C4_truthy_non_mapping_root_fatal_witness:
  "truthy (PList [PScalar (SStr ''item1''), PScalar (SStr ''item2'')])
   \<and> \<not> is_dict (PList [PScalar (SStr ''item1''), PScalar (SStr ''item2'')])
   \<and> command slot0 ''intersect'' (Parsed (PList [PScalar (SStr ''item1''), PScalar (SStr ''item2'')]))
        (Parsed (PDict [(''database'', PScalar (SStr ''postgres''))])) ''kv'' 1
      = Inl (LoadExit RootNotMappingMsg)
   \<and> command slot0 ''intersect'' (Parsed (PDict [(''database'', PScalar (SStr ''postgres''))]))
        (Parsed (PList [PScalar (SStr ''item1''), PScalar (SStr ''item2'')])) ''kv'' 1
      = Inl (LoadExit RootNotMappingMsg)"
proof -
  let ?root = "PList [PScalar (SStr ''item1''), PScalar (SStr ''item2'')]"
  have t: "truthy ?root" and n: "\<not> is_dict ?root" by simp_all
  have l: "load_yaml_file (Parsed (PDict [(''database'', PScalar (SStr ''postgres''))]))
           = Inr [(''database'', PScalar (SStr ''postgres''))]" by simp
  show ?thesis
    using t n l C4_truthy_non_mapping_root_fatal [OF t n, of slot0 "''intersect''"
      "Parsed (PDict [(''database'', PScalar (SStr ''postgres''))])" "''kv''" 1
      "Parsed (PDict [(''database'', PScalar (SStr ''postgres''))])"]
    by blast
qed

text \<open>The claim as stated fails at a \<^verbatim>\<open>None\<close> root: it is not a mapping and no error is
  reported.\<close>

theorem C4_null_root_counterexample:
  "\<not> is_dict (PScalar SNone) \<and> load_yaml_file (Parsed (PScalar SNone)) = Inr []"
  by simp

section \<open>Facts about sets and the result loops\<close>

lemma set_set_iter: "set (set_iter slot s) = set s"
  by (simp add: set_iter_def)

lemma set_member_iff: "set_member eq x s \<longleftrightarrow> (\<exists>y\<in>set s. eq x y)"
  by (simp add: set_member_def list_ex_iff)

lemma set_make_fold_subset:
  "set (fold (\<lambda>x s. if set_member eq x s then s else s @ [x]) xs s0) \<subseteq> set s0 \<union> set xs"
proof (induction xs arbitrary: s0)
  case Nil
  then show ?case by simp
next
  case (Cons a xs)
  show ?case
  proof (cases "set_member eq a s0")
    case True
    then show ?thesis using Cons.IH[of s0] by auto
  next
    case False
    then show ?thesis using Cons.IH[of "s0 @ [a]"] by auto
  qed
qed

lemma set_make_fold_mono:
  "set s0 \<subseteq> set (fold (\<lambda>x s. if set_member eq x s then s else s @ [x]) xs s0)"
proof (induction xs arbitrary: s0)
  case Nil
  then show ?case by simp
next
  case (Cons a xs)
  show ?case
  proof (cases "set_member eq a s0")
    case True
    then show ?thesis using Cons.IH[of s0] by simp
  next
    case False
    then show ?thesis using Cons.IH[of "s0 @ [a]"] by simp
  qed
qed

lemma set_make_fold_cover:
  assumes "x \<in> set xs"
  shows "\<exists>y\<in>set (fold (\<lambda>x s. if set_member eq x s then s else s @ [x]) xs s0). x = y \<or> eq x y"
  using assms
proof (induction xs arbitrary: s0)
  case Nil
  then show ?case by simp
next
  case (Cons a xs)
  show ?case
  proof (cases "set_member eq a s0")
    case True
    show ?thesis
    proof (cases "x = a")
      case xa: True
      from True obtain y where y: "y \<in> set s0" "eq a y" by (auto simp: set_member_iff)
      have "y \<in> set (fold (\<lambda>x s. if set_member eq x s then s else s @ [x]) xs s0)"
        using y(1) set_make_fold_mono[of s0 eq xs] by blast
      then show ?thesis using True xa y(2) by auto
    next
      case False
      then have "x \<in> set xs" using Cons.prems by simp
      from Cons.IH[OF this, of s0] show ?thesis using True by simp
    qed
  next
    case nm: False
    show ?thesis
    proof (cases "x = a")
      case True
      have "a \<in> set (fold (\<lambda>x s. if set_member eq x s then s else s @ [x]) xs (s0 @ [a]))"
        using set_make_fold_mono[of "s0 @ [a]" eq xs] by simp
      then show ?thesis using True nm by auto
    next
      case False
      then have "x \<in> set xs" using Cons.prems by simp
      from Cons.IH[OF this, of "s0 @ [a]"] show ?thesis using nm by simp
    qed
  qed
qed

lemma set_make_subset: "set (set_make eq xs) \<subseteq> set xs"
  using set_make_fold_subset[of eq xs "[]"] by (simp add: set_make_def)

lemma set_make_cover:
  "x \<in> set xs \<Longrightarrow> \<exists>y\<in>set (set_make eq xs). x = y \<or> eq x y"
  unfolding set_make_def by (rule set_make_fold_cover)

lemma set_make_eq: "set (set_make (=) xs) = set xs"
proof
  show "set (set_make (=) xs) \<subseteq> set xs" by (rule set_make_subset)
next
  show "set xs \<subseteq> set (set_make (=) xs)"
  proof
    fix x assume "x \<in> set xs"
    from set_make_cover[OF this, of "(=)"] show "x \<in> set (set_make (=) xs)" by simp
  qed
qed

lemma item_eq_fst: "item_eq a b \<Longrightarrow> fst a = fst b"
  by (simp add: item_eq_def)

lemma keys_set_make_items: "fst ` set (set_make item_eq xs) = fst ` set xs"
proof
  show "fst ` set (set_make item_eq xs) \<subseteq> fst ` set xs"
    using set_make_subset[of item_eq xs] by auto
next
  show "fst ` set xs \<subseteq> fst ` set (set_make item_eq xs)"
  proof
    fix k assume "k \<in> fst ` set xs"
    then obtain x where x: "x \<in> set xs" "fst x = k" by auto
    from set_make_cover[OF x(1), of item_eq]
    obtain y where "y \<in> set (set_make item_eq xs)" "x = y \<or> item_eq x y" by auto
    then have "y \<in> set (set_make item_eq xs)" "fst y = k"
      using x(2) item_eq_fst[of x y] by auto
    then show "k \<in> fst ` set (set_make item_eq xs)"
      by (metis imageI)
  qed
qed

lemma set_set_union: "set (set_union eq s t) = set s \<union> {x \<in> set t. \<not> (\<exists>y\<in>set s. eq x y)}"
  by (auto simp: set_union_def set_member_iff)

lemma set_set_inter: "set (set_inter eq s t) = {x \<in> set s. \<exists>y\<in>set t. eq x y}"
  by (auto simp: set_inter_def set_member_iff)

lemma set_set_diff: "set (set_diff eq s t) = {x \<in> set s. \<not> (\<exists>y\<in>set t. eq x y)}"
  by (auto simp: set_diff_def set_member_iff)

lemma set_set_symdiff:
  "set (set_symdiff eq s t) =
     {x \<in> set s. \<not> (\<exists>y\<in>set t. eq x y)} \<union> {x \<in> set t. \<not> (\<exists>y\<in>set s. eq x y)}"
  by (auto simp: set_symdiff_def set_set_diff)

lemma map_of_assign:
  "map_of (assign g ks res) = (\<lambda>k. if k \<in> set ks then Some (g k) else map_of res k)"
  unfolding assign_def
  by (induction ks arbitrary: res) (auto simp: map_of_dict_set fun_eq_iff)

lemma keys_assign: "set (map fst (assign g ks res)) = set (map fst res) \<union> set ks"
  unfolding assign_def
  by (induction ks arbitrary: res) (auto simp: keys_dict_set simp del: set_map)

lemma distinct_assign: "distinct (map fst res) \<Longrightarrow> distinct (map fst (assign g ks res))"
  unfolding assign_def
  by (induction ks arbitrary: res) (auto simp: distinct_dict_set)

lemma dict_has_iff: "dict_has d k \<longleftrightarrow> k \<in> fst ` set d"
  by (simp add: dict_has_def map_of_eq_None_iff)

lemma prefer_first_assign:
  assumes "set ks \<subseteq> fst ` set flat1 \<union> fst ` set flat2"
  shows "prefer_first flat1 flat2 ks res =
         Inr (assign (\<lambda>k. the ((map_of flat2 ++ map_of flat1) k)) ks res)"
  using assms
proof (induction ks arbitrary: res)
  case Nil
  then show ?case by (simp add: assign_def)
next
  case (Cons k ks)
  have ks: "set ks \<subseteq> fst ` set flat1 \<union> fst ` set flat2" using Cons.prems by simp
  have k: "k \<in> fst ` set flat1 \<or> k \<in> fst ` set flat2" using Cons.prems by simp
  show ?case
  proof (cases "map_of flat1 k")
    case None
    then have "k \<notin> fst ` set flat1" by (simp add: map_of_eq_None_iff)
    with k have "k \<in> fst ` set flat2" by simp
    then obtain v where v: "map_of flat2 k = Some v"
      by (cases "map_of flat2 k") (auto simp: map_of_eq_None_iff)
    show ?thesis using None v Cons.IH[OF ks]
      by (simp add: dict_has_def dict_get_def assign_def map_add_def)
  next
    case (Some v)
    show ?thesis using Some Cons.IH[OF ks]
      by (simp add: dict_has_def dict_get_def assign_def map_add_def)
  qed
qed

lemma take_from_assign:
  assumes "set ks \<subseteq> fst ` set flat"
  shows "take_from flat ks res = Inr (assign (\<lambda>k. the (map_of flat k)) ks res)"
  using assms
proof (induction ks arbitrary: res)
  case Nil
  then show ?case by (simp add: assign_def)
next
  case (Cons k ks)
  have "k \<in> fst ` set flat" using Cons.prems by simp
  then obtain v where v: "map_of flat k = Some v"
    by (cases "map_of flat k") (auto simp: map_of_eq_None_iff)
  show ?case using v Cons.IH Cons.prems
    by (simp add: dict_get_def assign_def)
qed

section \<open>The shape of the result mapping\<close>

declare flatten_dict.simps [simp del]

lemma keys_of_subset: "set xs \<subseteq> set ys \<Longrightarrow> set (map fst xs) \<subseteq> fst ` set ys"
  by auto

lemma set_union_subset: "set (set_union eq s t) \<subseteq> set s \<union> set t"
  by (auto simp: set_set_union)

lemma set_inter_subset: "set (set_inter eq s t) \<subseteq> set s"
  by (auto simp: set_set_inter)

lemma set_diff_subset: "set (set_diff eq s t) \<subseteq> set s"
  by (auto simp: set_set_diff)

lemma set_symdiff_subset: "set (set_symdiff eq s t) \<subseteq> set s \<union> set t"
  by (auto simp: set_set_symdiff)

lemma iter_keys_subset:
  assumes "set xs \<subseteq> S"
  shows "set (map fst (set_iter slot xs)) \<subseteq> fst ` S"
  using assms by (auto simp: set_set_iter)

lemma set_assign: "set (assign g ks res) \<subseteq> set res \<union> (\<lambda>k. (k, g k)) ` set ks"
  unfolding assign_def
proof (induction ks arbitrary: res)
  case Nil
  then show ?case by simp
next
  case (Cons k ks)
  show ?case using Cons[of "dict_set res k (g k)"] set_dict_set[of res k "g k"] by auto
qed

lemma prefer_in:
  assumes "k \<in> fst ` set f1 \<union> fst ` set f2"
  shows "(k, the ((map_of f2 ++ map_of f1) k)) \<in> set f1 \<union> set f2"
proof (cases "map_of f1 k")
  case None
  then have "k \<notin> fst ` set f1" by (simp add: map_of_eq_None_iff)
  with assms have "k \<in> fst ` set f2" by simp
  then obtain v where v: "map_of f2 k = Some v"
    by (cases "map_of f2 k") (auto simp: map_of_eq_None_iff)
  then have "(k, v) \<in> set f2" by (rule map_of_SomeD)
  then show ?thesis using None v by (simp add: map_add_def)
next
  case (Some v)
  then have "(k, v) \<in> set f1" by (rule map_of_SomeD)
  then show ?thesis using Some by (simp add: map_add_def)
qed

lemma take_in:
  assumes "k \<in> fst ` set f"
  shows "(k, the (map_of f k)) \<in> set f"
proof -
  obtain v where v: "map_of f k = Some v"
    using assms by (cases "map_of f k") (auto simp: map_of_eq_None_iff)
  then have "(k, v) \<in> set f" by (rule map_of_SomeD)
  then show ?thesis using v by simp
qed

lemma keys_items: "fst ` set (map (\<lambda>kv. (fst kv, f (snd kv))) d) = fst ` set d"
  by force

lemma keys_make_items:
  "fst ` set (set_make item_eq (map (\<lambda>kv. (fst kv, f (snd kv))) d)) = fst ` set d"
  by (simp only: keys_set_make_items keys_items)

lemma prefer_first_shape:
  assumes "set ks \<subseteq> fst ` set f1 \<union> fst ` set f2"
  shows "\<exists>g. prefer_first f1 f2 ks [] = Inr (assign g ks [])
            \<and> (\<forall>k\<in>set ks. (k, g k) \<in> set f1 \<union> set f2)"
proof -
  let ?g = "\<lambda>k. the ((map_of f2 ++ map_of f1) k)"
  have "prefer_first f1 f2 ks [] = Inr (assign ?g ks [])"
    using assms by (rule prefer_first_assign)
  moreover have "\<forall>k\<in>set ks. (k, ?g k) \<in> set f1 \<union> set f2"
    using assms prefer_in[of _ f1 f2] by blast
  ultimately show ?thesis by blast
qed

lemma take_from_shape:
  assumes "set ks \<subseteq> fst ` set f"
  shows "\<exists>g. take_from f ks [] = Inr (assign g ks [])
            \<and> (\<forall>k\<in>set ks. (k, g k) \<in> set f)"
proof -
  let ?g = "\<lambda>k. the (map_of f k)"
  have "take_from f ks [] = Inr (assign ?g ks [])"
    using assms by (rule take_from_assign)
  moreover have "\<forall>k\<in>set ks. (k, ?g k) \<in> set f"
    using assms take_in[of _ f] by blast
  ultimately show ?thesis by blast
qed

lemma result_mapping_keys_mode:
  "result_mapping h a b operation ''keys'' depth =
     prefer_first (flatten_dict a depth []) (flatten_dict b depth [])
       (set_iter (key_slot h)
         (if operation = ''union''
          then set_union (=) (set_make (=) (map fst (flatten_dict a depth [])))
                 (set_make (=) (map fst (flatten_dict b depth [])))
          else if operation = ''intersect''
          then set_inter (=) (set_make (=) (map fst (flatten_dict a depth [])))
                 (set_make (=) (map fst (flatten_dict b depth [])))
          else if operation = ''diff''
          then set_diff (=) (set_make (=) (map fst (flatten_dict a depth [])))
                 (set_make (=) (map fst (flatten_dict b depth [])))
          else if operation = ''rdiff''
          then set_diff (=) (set_make (=) (map fst (flatten_dict b depth [])))
                 (set_make (=) (map fst (flatten_dict a depth [])))
          else if operation = ''symdiff''
          then set_symdiff (=) (set_make (=) (map fst (flatten_dict a depth [])))
                 (set_make (=) (map fst (flatten_dict b depth [])))
          else [])) []"
  by (simp add: result_mapping_def Let_def)

lemma result_mapping_shape:
  "\<exists>g ks. result_mapping h a b operation compare_mode depth = Inr (assign g ks [])
     \<and> (\<forall>k\<in>set ks. (k, g k) \<in> set (flatten_dict a depth []) \<union> set (flatten_dict b depth []))"
proof -
  let ?f1 = "flatten_dict a depth []" and ?f2 = "flatten_dict b depth []"
  let ?i1 = "set_make item_eq (map (\<lambda>kv. (fst kv, make_hashable (snd kv))) ?f1)"
  let ?i2 = "set_make item_eq (map (\<lambda>kv. (fst kv, make_hashable (snd kv))) ?f2)"
  have k1: "fst ` set ?i1 = fst ` set ?f1" and k2: "fst ` set ?i2 = fst ` set ?f2"
    by (rule keys_make_items)+
  show ?thesis
  proof (cases "compare_mode = ''keys''")
    case True
    let ?ks = "set_iter (key_slot h)
         (if operation = ''union''
          then set_union (=) (set_make (=) (map fst ?f1)) (set_make (=) (map fst ?f2))
          else if operation = ''intersect''
          then set_inter (=) (set_make (=) (map fst ?f1)) (set_make (=) (map fst ?f2))
          else if operation = ''diff''
          then set_diff (=) (set_make (=) (map fst ?f1)) (set_make (=) (map fst ?f2))
          else if operation = ''rdiff''
          then set_diff (=) (set_make (=) (map fst ?f2)) (set_make (=) (map fst ?f1))
          else if operation = ''symdiff''
          then set_symdiff (=) (set_make (=) (map fst ?f1)) (set_make (=) (map fst ?f2))
          else [])"
    have "set ?ks \<subseteq> fst ` set ?f1 \<union> fst ` set ?f2"
      by (auto simp: set_set_iter set_set_union set_set_inter set_set_diff set_set_symdiff
          set_make_eq)
    from prefer_first_shape[OF this] show ?thesis
      unfolding True result_mapping_keys_mode by blast
  next
    case False
    have u: "set (map fst (set_iter (item_slot h) (set_union item_eq ?i1 ?i2)))
               \<subseteq> fst ` set ?f1 \<union> fst ` set ?f2"
      using iter_keys_subset[OF set_union_subset[of item_eq ?i1 ?i2]] k1 k2
      by (simp only: image_Un)
    have s: "set (map fst (set_iter (item_slot h) (set_symdiff item_eq ?i1 ?i2)))
               \<subseteq> fst ` set ?f1 \<union> fst ` set ?f2"
      using iter_keys_subset[OF set_symdiff_subset[of item_eq ?i1 ?i2]] k1 k2
      by (simp only: image_Un)
    have i: "set (map fst (set_iter (item_slot h) (set_inter item_eq ?i1 ?i2))) \<subseteq> fst ` set ?f1"
      using iter_keys_subset[OF set_inter_subset[of item_eq ?i1 ?i2]] k1 by simp
    have d: "set (map fst (set_iter (item_slot h) (set_diff item_eq ?i1 ?i2))) \<subseteq> fst ` set ?f1"
      using iter_keys_subset[OF set_diff_subset[of item_eq ?i1 ?i2]] k1 by simp
    have r: "set (map fst (set_iter (item_slot h) (set_diff item_eq ?i2 ?i1))) \<subseteq> fst ` set ?f2"
      using iter_keys_subset[OF set_diff_subset[of item_eq ?i2 ?i1]] k2 by simp
    consider "operation = ''union''" | "operation = ''intersect''" | "operation = ''diff''"
      | "operation = ''rdiff''" | "operation = ''symdiff''" | "operation \<notin> operations"
      by (auto simp: operations_def)
    then show ?thesis
    proof cases
      case 1
      have e: "result_mapping h a b operation compare_mode depth =
          prefer_first ?f1 ?f2 (map fst (set_iter (item_slot h) (set_union item_eq ?i1 ?i2))) []"
        using False 1 by (simp add: result_mapping_def Let_def)
      from prefer_first_shape[OF u] show ?thesis unfolding e by blast
    next
      case 2
      have e: "result_mapping h a b operation compare_mode depth =
          take_from ?f1 (map fst (set_iter (item_slot h) (set_inter item_eq ?i1 ?i2))) []"
        using False 2 by (simp add: result_mapping_def Let_def)
      from take_from_shape[OF i] show ?thesis unfolding e by blast
    next
      case 3
      have e: "result_mapping h a b operation compare_mode depth =
          take_from ?f1 (map fst (set_iter (item_slot h) (set_diff item_eq ?i1 ?i2))) []"
        using False 3 by (simp add: result_mapping_def Let_def)
      from take_from_shape[OF d] show ?thesis unfolding e by blast
    next
      case 4
      have e: "result_mapping h a b operation compare_mode depth =
          take_from ?f2 (map fst (set_iter (item_slot h) (set_diff item_eq ?i2 ?i1))) []"
        using False 4 by (simp add: result_mapping_def Let_def)
      from take_from_shape[OF r] show ?thesis unfolding e by blast
    next
      case 5
      have e: "result_mapping h a b operation compare_mode depth =
          prefer_first ?f1 ?f2 (map fst (set_iter (item_slot h) (set_symdiff item_eq ?i1 ?i2))) []"
        using False 5 by (simp add: result_mapping_def Let_def)
      from prefer_first_shape[OF s] show ?thesis unfolding e by blast
    next
      case 6
      have "result_mapping h a b operation compare_mode depth = Inr (assign (\<lambda>k. undefined) [] [])"
        using result_mapping_unsupported[OF 6] by (simp add: assign_def)
      then show ?thesis by (metis empty_iff list.set(1))
    qed
  qed
qed

section \<open>Unlimited depth leaves the result flat\<close>

lemma nonempty_mapping_simps [simp]:
  "nonempty_mapping (PDict d) = (d \<noteq> [])"
  "nonempty_mapping (PList xs) = False"
  "nonempty_mapping (PScalar a) = False"
  by (simp_all add: nonempty_mapping_def)

lemma flatten_loop_stop:
  assumes "0 < depth" and "depth \<le> int (length (split (join_key parent_key key)))"
  shows "flatten_loop ((key, val) # rest) depth parent_key items =
         flatten_loop rest depth parent_key (dict_set items (join_key parent_key key) val)"
  using assms by (simp add: Let_def)

lemma flatten_loop_descend:
  assumes "\<not> (0 < depth \<and> depth \<le> int (length (split (join_key parent_key key))))"
    and "sub \<noteq> []"
  shows "flatten_loop ((key, PDict sub) # rest) depth parent_key items =
         flatten_loop rest depth parent_key
           (dict_update items (flatten_dict sub depth (join_key parent_key key)))"
  using assms by (auto simp: Let_def)

lemma flatten_loop_leaf:
  assumes "\<not> (0 < depth \<and> depth \<le> int (length (split (join_key parent_key key))))"
    and "\<not> nonempty_mapping val"
  shows "flatten_loop ((key, val) # rest) depth parent_key items =
         flatten_loop rest depth parent_key (dict_set items (join_key parent_key key) val)"
  using assms by (cases val) (auto simp: Let_def)

lemma flatten_induct [case_names dict nil stop descend leaf]:
  assumes dict: "\<And>data depth parent_key.
      (\<not> (depth = 1 \<and> parent_key = []) \<Longrightarrow> Q data depth parent_key []) \<Longrightarrow>
      P data depth parent_key"
    and nil: "\<And>depth parent_key items. Q [] depth parent_key items"
    and stop: "\<And>key val rest depth parent_key items.
      0 < depth \<Longrightarrow> depth \<le> int (length (split (join_key parent_key key))) \<Longrightarrow>
      Q rest depth parent_key (dict_set items (join_key parent_key key) val) \<Longrightarrow>
      Q ((key, val) # rest) depth parent_key items"
    and descend: "\<And>key sub rest depth parent_key items.
      \<not> (0 < depth \<and> depth \<le> int (length (split (join_key parent_key key)))) \<Longrightarrow>
      sub \<noteq> [] \<Longrightarrow>
      P sub depth (join_key parent_key key) \<Longrightarrow>
      Q rest depth parent_key
        (dict_update items (flatten_dict sub depth (join_key parent_key key))) \<Longrightarrow>
      Q ((key, PDict sub) # rest) depth parent_key items"
    and leaf: "\<And>key val rest depth parent_key items.
      \<not> (0 < depth \<and> depth \<le> int (length (split (join_key parent_key key)))) \<Longrightarrow>
      \<not> nonempty_mapping val \<Longrightarrow>
      Q rest depth parent_key (dict_set items (join_key parent_key key) val) \<Longrightarrow>
      Q ((key, val) # rest) depth parent_key items"
  shows "P a0 a1 a2" and "Q b0 b1 b2 b3"
proof (induction a0 a1 a2 and b0 b1 b2 b3 rule: flatten_dict_flatten_loop.induct)
  case (1 data depth parent_key)
  then show ?case by (rule dict)
next
  case (2 depth parent_key items)
  show ?case by (rule nil)
next
  case (3 key val rest depth parent_key items)
  let ?nk = "join_key parent_key key"
  show ?case
  proof (cases "0 < depth \<and> depth \<le> int (length (split ?nk))")
    case True
    show ?thesis using stop True "3.IH"(1)[OF refl refl True] by blast
  next
    case nd: False
    show ?thesis
    proof (cases val)
      case (PScalar x1)
      have "\<not> nonempty_mapping val" using PScalar by simp
      then show ?thesis using leaf[OF nd] "3.IH"(2)[OF refl refl nd PScalar] by blast
    next
      case (PList x2)
      have "\<not> nonempty_mapping val" using PList by simp
      then show ?thesis using leaf[OF nd] "3.IH"(3)[OF refl refl nd PList] by blast
    next
      case (PDict sub)
      show ?thesis
      proof (cases "sub = []")
        case True
        have "\<not> nonempty_mapping val" using PDict True by simp
        moreover have "\<not> sub \<noteq> []" using True by simp
        ultimately show ?thesis using leaf[OF nd] "3.IH"(6)[OF refl refl nd PDict] by blast
      next
        case False
        show ?thesis unfolding PDict
          using descend[OF nd False] "3.IH"(4)[OF refl refl nd PDict False]
            "3.IH"(5)[OF refl refl nd PDict False] by blast
      qed
    qed
  qed
qed

declare flatten_loop.simps(2) [simp del]

lemma flatten_leaves:
  "depth \<le> 0 \<Longrightarrow> \<forall>kv\<in>set (flatten_dict data depth parent_key). \<not> nonempty_mapping (snd kv)"
  "depth \<le> 0 \<Longrightarrow> \<forall>kv\<in>set items. \<not> nonempty_mapping (snd kv) \<Longrightarrow>
     \<forall>kv\<in>set (flatten_loop data depth parent_key items). \<not> nonempty_mapping (snd kv)"
proof (induction data depth parent_key and data depth parent_key items rule: flatten_induct)
  case (dict data depth parent_key)
  then show ?case by (simp add: flatten_dict.simps)
next
  case (nil depth parent_key items)
  then show ?case by simp
next
  case (stop key val rest depth parent_key items)
  then show ?case by simp
next
  case (descend key sub rest depth parent_key items)
  let ?nk = "join_key parent_key key"
  have "\<forall>kv\<in>set (dict_update items (flatten_dict sub depth ?nk)). \<not> nonempty_mapping (snd kv)"
    using descend.IH(1)[OF descend.prems(1)] descend.prems(2)
      set_dict_update[of items "flatten_dict sub depth ?nk"] by blast
  from descend.IH(2)[OF descend.prems(1) this] show ?case
    by (simp only: flatten_loop_descend[OF descend.hyps])
next
  case (leaf key val rest depth parent_key items)
  let ?nk = "join_key parent_key key"
  have "\<forall>kv\<in>set (dict_set items ?nk val). \<not> nonempty_mapping (snd kv)"
    using leaf.hyps(2) leaf.prems(2) set_dict_set[of items ?nk val] by auto
  from leaf.IH[OF leaf.prems(1) this] show ?case
    by (simp only: flatten_loop_leaf[OF leaf.hyps])
qed

text \<open>
  C8. At depth 0 the function returns the mapping built from the two flattened documents
  as it is, with no error: \<open>unflatten_dict\<close> runs only when the depth exceeds 1. Every
  entry of the result is an entry of one of the two documents flattened without limit, under
  its dotted key, and no value is a non-empty mapping.
\<close>

theorem C8_depth_zero_result_stays_flat:
  "\<exists>r. perform_set_operation h a b operation compare_mode 0 = Inr r
      \<and> result_mapping h a b operation compare_mode 0 = Inr r
      \<and> set r \<subseteq> set (flatten_dict a 0 []) \<union> set (flatten_dict b 0 [])
      \<and> (\<forall>kv\<in>set r. \<not> nonempty_mapping (snd kv))"
proof -
  obtain g ks where r: "result_mapping h a b operation compare_mode 0 = Inr (assign g ks [])"
    and o: "\<forall>k\<in>set ks. (k, g k) \<in> set (flatten_dict a 0 []) \<union> set (flatten_dict b 0 [])"
    using result_mapping_shape[of h a b operation compare_mode 0] by blast
  have s: "set (assign g ks []) \<subseteq> set (flatten_dict a 0 []) \<union> set (flatten_dict b 0 [])"
    using set_assign[of g ks "[]"] o by auto
  have l: "\<forall>kv\<in>set (assign g ks []). \<not> nonempty_mapping (snd kv)"
    using s flatten_leaves(1)[of 0 a "[]"] flatten_leaves(1)[of 0 b "[]"] by blast
  have p: "perform_set_operation h a b operation compare_mode 0 = Inr (assign g ks [])"
    using r by (simp add: perform_set_operation_def)
  show ?thesis using r s l p by blast
qed

theorem C8_depth_zero_result_stays_flat_witness:
  "perform_set_operation slot0
     [(''database'', PDict [(''host'', PScalar (SStr ''localhost'')), (''port'', PScalar (SInt 5432))]),
      (''app'', PDict [(''name'', PScalar (SStr ''myapp''))])]
     [(''database'', PDict [(''host'', PScalar (SStr ''localhost'')), (''port'', PScalar (SInt 3306))]),
      (''app'', PDict [(''name'', PScalar (SStr ''myapp''))])]
     ''intersect'' ''kv'' 0
   = Inr [(''database.host'', PScalar (SStr ''localhost'')), (''app.name'', PScalar (SStr ''myapp''))]
   \<and> \<not> nonempty_mapping (PScalar (SStr ''localhost''))
   \<and> \<not> nonempty_mapping (PScalar (SStr ''myapp''))"
proof -
  let ?a = "[(''database'', PDict [(''host'', PScalar (SStr ''localhost'')), (''port'', PScalar (SInt 5432))]),
      (''app'', PDict [(''name'', PScalar (SStr ''myapp''))])]"
  let ?b = "[(''database'', PDict [(''host'', PScalar (SStr ''localhost'')), (''port'', PScalar (SInt 3306))]),
      (''app'', PDict [(''name'', PScalar (SStr ''myapp''))])]"
  have e: "perform_set_operation slot0 ?a ?b ''intersect'' ''kv'' 0
    = Inr [(''database.host'', PScalar (SStr ''localhost'')), (''app.name'', PScalar (SStr ''myapp''))]"
    by code_simp
  show ?thesis
    using e C8_depth_zero_result_stays_flat [of slot0 ?a ?b "''intersect''" "''kv''"]
    by auto
qed

section \<open>Union by keys and by key-value pairs\<close>

lemma keys_set_union_items:
  "fst ` set (set_union item_eq i1 i2) = fst ` set i1 \<union> fst ` set i2"
proof
  show "fst ` set (set_union item_eq i1 i2) \<subseteq> fst ` set i1 \<union> fst ` set i2"
    using set_union_subset[of item_eq i1 i2] by blast
next
  show "fst ` set i1 \<union> fst ` set i2 \<subseteq> fst ` set (set_union item_eq i1 i2)"
  proof
    fix k assume "k \<in> fst ` set i1 \<union> fst ` set i2"
    then consider "k \<in> fst ` set i1" | x where "x \<in> set i2" "fst x = k" by auto
    then show "k \<in> fst ` set (set_union item_eq i1 i2)"
    proof cases
      case 1
      then show ?thesis by (auto simp: set_set_union)
    next
      case 2
      show ?thesis
      proof (cases "\<exists>y\<in>set i1. item_eq x y")
        case True
        then obtain y where y: "y \<in> set i1" "item_eq x y" by blast
        then have "fst y = k" using 2(2) item_eq_fst[of x y] by simp
        then have "k \<in> fst ` set i1" using y(1) by (metis imageI)
        then show ?thesis by (auto simp: set_set_union)
      next
        case False
        then have "x \<in> set (set_union item_eq i1 i2)" using 2(1) by (simp add: set_set_union)
        then show ?thesis using 2(2) by (metis imageI)
      qed
    qed
  qed
qed

lemma union_by_keys:
  "\<exists>ks. result_mapping h a b ''union'' ''keys'' depth =
          Inr (assign (\<lambda>k. the ((map_of (flatten_dict b depth []) ++ map_of (flatten_dict a depth [])) k)) ks [])
        \<and> set ks = fst ` set (flatten_dict a depth []) \<union> fst ` set (flatten_dict b depth [])"
proof -
  let ?f1 = "flatten_dict a depth []" and ?f2 = "flatten_dict b depth []"
  let ?ks = "set_iter (key_slot h) (set_union (=) (set_make (=) (map fst ?f1)) (set_make (=) (map fst ?f2)))"
  have s: "set ?ks = fst ` set ?f1 \<union> fst ` set ?f2"
    by (auto simp: set_set_iter set_set_union set_make_eq)
  have e: "result_mapping h a b ''union'' ''keys'' depth = prefer_first ?f1 ?f2 ?ks []"
    by (simp add: result_mapping_keys_mode)
  have "set ?ks \<subseteq> fst ` set ?f1 \<union> fst ` set ?f2" using s by simp
  from prefer_first_assign[OF this, of "[]"] have
    "result_mapping h a b ''union'' ''keys'' depth =
       Inr (assign (\<lambda>k. the ((map_of ?f2 ++ map_of ?f1) k)) ?ks [])"
    using e by simp
  then show ?thesis using s by blast
qed

lemma union_by_items:
  "\<exists>ks. result_mapping h a b ''union'' ''kv'' depth =
          Inr (assign (\<lambda>k. the ((map_of (flatten_dict b depth []) ++ map_of (flatten_dict a depth [])) k)) ks [])
        \<and> set ks = fst ` set (flatten_dict a depth []) \<union> fst ` set (flatten_dict b depth [])"
proof -
  let ?f1 = "flatten_dict a depth []" and ?f2 = "flatten_dict b depth []"
  let ?i1 = "set_make item_eq (map (\<lambda>kv. (fst kv, make_hashable (snd kv))) ?f1)"
  let ?i2 = "set_make item_eq (map (\<lambda>kv. (fst kv, make_hashable (snd kv))) ?f2)"
  let ?ks = "map fst (set_iter (item_slot h) (set_union item_eq ?i1 ?i2))"
  have "set ?ks = fst ` set (set_union item_eq ?i1 ?i2)"
    by (simp add: set_set_iter)
  also have "\<dots> = fst ` set ?i1 \<union> fst ` set ?i2" by (rule keys_set_union_items)
  also have "\<dots> = fst ` set ?f1 \<union> fst ` set ?f2" by (simp only: keys_make_items)
  finally have s: "set ?ks = fst ` set ?f1 \<union> fst ` set ?f2" .
  have e: "result_mapping h a b ''union'' ''kv'' depth = prefer_first ?f1 ?f2 ?ks []"
    by (simp add: result_mapping_def Let_def)
  have "set ?ks \<subseteq> fst ` set ?f1 \<union> fst ` set ?f2" using s by simp
  from prefer_first_assign[OF this, of "[]"] have
    "result_mapping h a b ''union'' ''kv'' depth =
       Inr (assign (\<lambda>k. the ((map_of ?f2 ++ map_of ?f1) k)) ?ks [])"
    using e by simp
  then show ?thesis using s by blast
qed

lemma assign_same_keys:
  assumes "set ks = set ks'"
  shows "map_of (assign g ks []) = map_of (assign g ks' [])"
    and "mset (assign g ks []) = mset (assign g ks' [])"
proof -
  show m: "map_of (assign g ks []) = map_of (assign g ks' [])"
    using assms by (simp add: map_of_assign)
  have d: "distinct (map fst (assign g ks []))" "distinct (map fst (assign g ks' []))"
    by (simp_all add: distinct_assign)
  have "set (assign g ks []) = set (assign g ks' [])"
    using m d by (simp add: map_of_inject_set)
  moreover have "distinct (assign g ks [])" "distinct (assign g ks' [])"
    using d distinct_map by blast+
  ultimately show "mset (assign g ks []) = mset (assign g ks' [])"
    by (simp add: set_eq_iff_mset_eq_distinct)
qed

lemma perform_low_depth:
  "depth \<le> 1 \<Longrightarrow> perform_set_operation h a b operation compare_mode depth =
     result_mapping h a b operation compare_mode depth"
  by (cases "result_mapping h a b operation compare_mode depth")
     (simp_all add: perform_set_operation_def)

text \<open>
  C9. For every depth and every order in which the two sets are visited, the mapping
  \<^verbatim>\<open>result\<close> that the union builds under \<^verbatim>\<open>'keys'\<close> and the one it builds under
  \<^verbatim>\<open>'kv'\<close> have the same entries: one entry for each key of the two flattened documents,
  with the value of the first document when the key is there and of the second otherwise.
  Up to depth 1 this mapping is what the function returns.
\<close>

theorem C9_union_same_under_keys_and_kv:
  "\<exists>r1 r2. result_mapping h1 a b ''union'' ''keys'' depth = Inr r1
     \<and> result_mapping h2 a b ''union'' ''kv'' depth = Inr r2
     \<and> mset r1 = mset r2
     \<and> map_of r1 = map_of r2
     \<and> distinct (map fst r1) \<and> distinct (map fst r2)
     \<and> set (map fst r1) = set (map fst (flatten_dict a depth [])) \<union> set (map fst (flatten_dict b depth []))
     \<and> map_of r1 = map_of (flatten_dict b depth []) ++ map_of (flatten_dict a depth [])
     \<and> (depth \<le> 1 \<longrightarrow> perform_set_operation h1 a b ''union'' ''keys'' depth = Inr r1
                     \<and> perform_set_operation h2 a b ''union'' ''kv'' depth = Inr r2)"
proof -
  let ?f1 = "flatten_dict a depth []" and ?f2 = "flatten_dict b depth []"
  let ?g = "\<lambda>k. the ((map_of ?f2 ++ map_of ?f1) k)"
  obtain ks1 where r1: "result_mapping h1 a b ''union'' ''keys'' depth = Inr (assign ?g ks1 [])"
    and s1: "set ks1 = fst ` set ?f1 \<union> fst ` set ?f2"
    using union_by_keys[of h1 a b depth] by blast
  obtain ks2 where r2: "result_mapping h2 a b ''union'' ''kv'' depth = Inr (assign ?g ks2 [])"
    and s2: "set ks2 = fst ` set ?f1 \<union> fst ` set ?f2"
    using union_by_items[of h2 a b depth] by blast
  have same: "set ks1 = set ks2" using s1 s2 by simp
  have k: "set (map fst (assign ?g ks1 [])) = set (map fst ?f1) \<union> set (map fst ?f2)"
    using s1 keys_assign[of ?g ks1 "[]"] by simp
  have dm: "dom (map_of ?f2 ++ map_of ?f1) = set ks1"
    using s1 by (simp add: dom_map_of_conv_image_fst Un_commute)
  have m: "map_of (assign ?g ks1 []) = map_of ?f2 ++ map_of ?f1"
  proof
    fix k
    show "map_of (assign ?g ks1 []) k = (map_of ?f2 ++ map_of ?f1) k"
    proof (cases "k \<in> set ks1")
      case True
      then have "k \<in> dom (map_of ?f2 ++ map_of ?f1)" using dm by simp
      then obtain y where y: "(map_of ?f2 ++ map_of ?f1) k = Some y"
        by (meson domD)
      show ?thesis by (simp only: map_of_assign True if_True y option.sel)
    next
      case False
      then have "k \<notin> dom (map_of ?f2 ++ map_of ?f1)" using dm by simp
      then have n: "(map_of ?f2 ++ map_of ?f1) k = None"
        by (simp only: domIff not_not)
      show ?thesis by (simp only: map_of_assign False if_False n list.set empty_iff map_of.simps)
    qed
  qed
  have p: "depth \<le> 1 \<longrightarrow> perform_set_operation h1 a b ''union'' ''keys'' depth = Inr (assign ?g ks1 [])
                     \<and> perform_set_operation h2 a b ''union'' ''kv'' depth = Inr (assign ?g ks2 [])"
    using r1 r2 by (simp add: perform_low_depth)
  have d1: "distinct (map fst (assign ?g ks1 []))" and d2: "distinct (map fst (assign ?g ks2 []))"
    by (simp_all add: distinct_assign)
  have p1: "depth \<le> 1 \<longrightarrow> perform_set_operation h1 a b ''union'' ''keys'' depth = Inr (assign ?g ks1 [])
                     \<and> perform_set_operation h2 a b ''union'' ''kv'' depth = Inr (assign ?g ks2 [])"
    by (rule p)
  show ?thesis
    apply (rule exI[of _ "assign ?g ks1 []"])
    apply (rule exI[of _ "assign ?g ks2 []"])
    apply (intro conjI)
            apply (rule r1)
           apply (rule r2)
          apply (rule assign_same_keys(2)[OF same])
         apply (rule assign_same_keys(1)[OF same])
        apply (rule d1)
       apply (rule d2)
      apply (rule k)
     apply (rule m)
    apply (rule p1)
    done
qed

theorem C9_union_same_under_keys_and_kv_witness:
  "perform_set_operation slot0 [(''a'', PScalar (SInt 1)), (''b'', PScalar (SInt 2))]
       [(''b'', PScalar (SInt 3)), (''c'', PScalar (SInt 4))] ''union'' ''keys'' 1
     = Inr [(''a'', PScalar (SInt 1)), (''b'', PScalar (SInt 2)), (''c'', PScalar (SInt 4))]
   \<and> perform_set_operation slot0 [(''a'', PScalar (SInt 1)), (''b'', PScalar (SInt 2))]
       [(''b'', PScalar (SInt 3)), (''c'', PScalar (SInt 4))] ''union'' ''kv'' 1
     = Inr [(''a'', PScalar (SInt 1)), (''b'', PScalar (SInt 2)), (''c'', PScalar (SInt 4))]
   \<and> (1::int) \<le> 1"
proof -
  let ?a = "[(''a'', PScalar (SInt 1)), (''b'', PScalar (SInt 2))]"
  let ?b = "[(''b'', PScalar (SInt 3)), (''c'', PScalar (SInt 4))]"
  have e1: "result_mapping slot0 ?a ?b ''union'' ''keys'' 1
     = Inr [(''a'', PScalar (SInt 1)), (''b'', PScalar (SInt 2)), (''c'', PScalar (SInt 4))]"
    by code_simp
  have e2: "result_mapping slot0 ?a ?b ''union'' ''kv'' 1
     = Inr [(''a'', PScalar (SInt 1)), (''b'', PScalar (SInt 2)), (''c'', PScalar (SInt 4))]"
    by code_simp
  obtain r1 r2 where r: "result_mapping slot0 ?a ?b ''union'' ''keys'' 1 = Inr r1"
      "result_mapping slot0 ?a ?b ''union'' ''kv'' 1 = Inr r2"
      "(1::int) \<le> 1 \<longrightarrow> perform_set_operation slot0 ?a ?b ''union'' ''keys'' 1 = Inr r1
                     \<and> perform_set_operation slot0 ?a ?b ''union'' ''kv'' 1 = Inr r2"
    using C9_union_same_under_keys_and_kv [of slot0 ?a ?b 1 slot0] by blast
  have "r1 = [(''a'', PScalar (SInt 1)), (''b'', PScalar (SInt 2)), (''c'', PScalar (SInt 4))]"
    using r(1) e1 by simp
  moreover have "r2 = [(''a'', PScalar (SInt 1)), (''b'', PScalar (SInt 2)), (''c'', PScalar (SInt 4))]"
    using r(2) e2 by simp
  ultimately show ?thesis using r(3) by simp
qed

section \<open>Intersection in both directions\<close>








lemma result_mapping_other_mode:
  "compare_mode \<noteq> ''keys'' \<Longrightarrow>
   result_mapping h a b operation compare_mode depth = result_mapping h a b operation ''kv'' depth"
  by (simp add: result_mapping_def)






section \<open>unflatten\_dict on flat maps without conflicts\<close>

lemma set_path_fresh: "parts \<noteq> [] \<Longrightarrow> \<exists>r. set_path parts v [] = Inr r"
proof (induction parts)
  case Nil
  then show ?case by simp
next
  case (Cons p ps)
  show ?case
  proof (cases ps)
    case Nil
    then show ?thesis by simp
  next
    case (Cons q qs)
    then obtain r where "set_path ps v [] = Inr r" using Cons.IH by blast
    then show ?thesis using Cons by simp
  qed
qed

lemma walkable_fresh: "parts \<noteq> [] \<Longrightarrow> walkable parts []"
proof (cases parts)
  case Nil
  then show "parts \<noteq> [] \<Longrightarrow> walkable parts []" by simp
next
  case (Cons p ps)
  then show "walkable parts []" by (cases ps) simp_all
qed

lemma walkable_set_path:
  "walkable parts current \<Longrightarrow> \<exists>r. set_path parts v current = Inr r"
proof (induction parts v current rule: set_path.induct)
  case (1 val current)
  then show ?case by simp
next
  case (2 last_part val current)
  then show ?case by simp
next
  case (3 part q others val current)
  show ?case
  proof (cases "map_of current part")
    case None
    obtain r where "set_path (q # others) val [] = Inr r"
      using set_path_fresh[of "q # others" val] by blast
    then show ?thesis using None by simp
  next
    case (Some x)
    show ?thesis
    proof (cases x)
      case (PDict sub)
      have "walkable (q # others) sub" using "3.prems" Some PDict by simp
      from "3.IH"(2)[OF Some PDict this] obtain r where "set_path (q # others) val sub = Inr r"
        by blast
      then show ?thesis using Some PDict by simp
    next
      case (PScalar a)
      then show ?thesis using "3.prems" Some by simp
    next
      case (PList xs)
      then show ?thesis using "3.prems" Some by simp
    qed
  qed
qed

lemma set_path_Inr_cases:
  assumes "set_path (part # q # others) val current = Inr r"
  obtains sub where "map_of current part = None" "set_path (q # others) val [] = Inr sub"
      "r = dict_set current part (PDict sub)"
  | old sub where "map_of current part = Some (PDict old)"
      "set_path (q # others) val old = Inr sub" "r = dict_set current part (PDict sub)"
  using assms
  by (auto split: option.splits pyval.splits sum.splits)

lemma walkable_other_key:
  assumes "q \<noteq> p"
  shows "walkable (q # qs) (dict_set d p v) = walkable (q # qs) d"
  using assms by (cases qs) (simp_all add: map_of_dict_set)

lemma walkable_preserved:
  assumes "set_path ps v d = Inr d'" and "walkable qs d" and "\<not> strict_prefix ps qs"
  shows "walkable qs d'"
  using assms
proof (induction ps v d arbitrary: qs d' rule: set_path.induct)
  case (1 val current)
  then show ?case by simp
next
  case (2 last_part val current)
  then have d': "d' = dict_set current last_part val" by simp
  show ?case
  proof (cases qs)
    case Nil
    then show ?thesis using "2.prems" by simp
  next
    case (Cons q qs')
    show ?thesis
    proof (cases "q = last_part")
      case True
      then have "qs' = []" using "2.prems"(3) Cons by (auto simp: strict_prefix_def)
      then show ?thesis using Cons by simp
    next
      case False
      then show ?thesis using "2.prems"(2) Cons d' walkable_other_key[of q last_part qs' current val]
        by simp
    qed
  qed
next
  case (3 part p2 others val current)
  show ?case
  proof (cases qs)
    case Nil
    then show ?thesis using "3.prems" by simp
  next
    case (Cons q qs')
    note qs = Cons
    show ?thesis
    proof (cases qs')
      case Nil
      then show ?thesis using qs by simp
    next
      case (Cons q2 qs'')
      note qs' = Cons
      from "3.prems"(1) show ?thesis
      proof (cases rule: set_path_Inr_cases)
        case (1 sub)
        show ?thesis
        proof (cases "q = part")
          case True
          have np: "\<not> strict_prefix (p2 # others) (q2 # qs'')"
            using "3.prems"(3) qs qs' True by (simp add: strict_prefix_def)
          have "walkable (q2 # qs'') sub"
            using "3.IH"(1)[OF 1(1) 1(2) walkable_fresh np] by simp
          then show ?thesis using qs qs' True 1(3) by (simp add: map_of_dict_set)
        next
          case False
          then show ?thesis
            using "3.prems"(2) qs 1(3) walkable_other_key[of q part qs' current "PDict sub"]
            by simp
        qed
      next
        case (2 old sub)
        show ?thesis
        proof (cases "q = part")
          case True
          have np: "\<not> strict_prefix (p2 # others) (q2 # qs'')"
            using "3.prems"(3) qs qs' True by (simp add: strict_prefix_def)
          have w: "walkable (q2 # qs'') old"
            using "3.prems"(2) qs qs' True 2(1) by simp
          have "walkable (q2 # qs'') sub"
            using "3.IH"(2)[OF 2(1) refl 2(2) w np] .
          then show ?thesis using qs qs' True 2(3) by (simp add: map_of_dict_set)
        next
          case False
          then show ?thesis
            using "3.prems"(2) qs 2(3) walkable_other_key[of q part qs' current "PDict sub"]
            by simp
        qed
      qed
    qed
  qed
qed

lemma unflatten_loop_total:
  assumes "\<forall>k\<in>set (map fst rest). walkable (split k) result"
    and "\<forall>k\<in>set (map fst rest). \<forall>k'\<in>set (map fst rest). \<not> strict_prefix (split k) (split k')"
  shows "\<exists>r. unflatten_loop rest result = Inr r"
  using assms
proof (induction rest arbitrary: result)
  case Nil
  then show ?case by simp
next
  case (Cons kv rest)
  obtain key val where kv: "kv = (key, val)" by (cases kv)
  have "key \<in> set (map fst (kv # rest))" using kv by simp
  then have "walkable (split key) result" using Cons.prems(1) by blast
  then obtain result' where s: "set_path (split key) val result = Inr result'"
    using walkable_set_path by blast
  have w: "\<forall>k\<in>set (map fst rest). walkable (split k) result'"
  proof
    fix k assume k: "k \<in> set (map fst rest)"
    have "k \<in> set (map fst (kv # rest))" using k by simp
    then have "walkable (split k) result" using Cons.prems(1) by blast
    moreover have "key \<in> set (map fst (kv # rest))" using kv by simp
    then have "\<not> strict_prefix (split key) (split k)"
      using Cons.prems(2) \<open>k \<in> set (map fst (kv # rest))\<close> by blast
    ultimately show "walkable (split k) result'" using walkable_preserved[OF s] by blast
  qed
  have c: "\<forall>k\<in>set (map fst rest). \<forall>k'\<in>set (map fst rest). \<not> strict_prefix (split k) (split k')"
  proof (intro ballI)
    fix k k' assume "k \<in> set (map fst rest)" "k' \<in> set (map fst rest)"
    then have "k \<in> set (map fst (kv # rest))" "k' \<in> set (map fst (kv # rest))" by simp_all
    then show "\<not> strict_prefix (split k) (split k')" using Cons.prems(2) by blast
  qed
  from Cons.IH[OF w c] show ?case using kv s by simp
qed

text \<open>
  C10. On a flat map in which the parts of no key are a proper prefix of the parts of
  another key, \<open>unflatten_dict\<close> returns a result. On the flat map that binds
  \<^verbatim>\<open>'a'\<close> to a number and then \<^verbatim>\<open>'a.b'\<close>, which has a conflict, it raises
  \<^verbatim>\<open>TypeError\<close> when it walks into the number.
\<close>

theorem C10_unflatten_total_without_conflicts:
  "(conflict_free d \<longrightarrow> (\<exists>r. unflatten_dict d = Inr r))
   \<and> \<not> conflict_free [(''a'', PScalar (SInt 1)), (''a.b'', PScalar (SInt 2))]
   \<and> unflatten_dict [(''a'', PScalar (SInt 1)), (''a.b'', PScalar (SInt 2))] = Inl TypeError"
proof -
  have 1: "\<exists>r. unflatten_dict d = Inr r" if c: "conflict_free d"
  proof -
    have w: "\<forall>k\<in>set (map fst d). walkable (split k) []"
      using walkable_fresh split_nonempty by blast
    have p: "\<forall>k\<in>set (map fst d). \<forall>k'\<in>set (map fst d). \<not> strict_prefix (split k) (split k')"
      using c by (simp add: conflict_free_def list_all_iff)
    from unflatten_loop_total[OF w p] show ?thesis by (simp add: unflatten_dict_def)
  qed
  have 2: "\<not> conflict_free [(''a'', PScalar (SInt 1)), (''a.b'', PScalar (SInt 2))]"
    by (simp add: conflict_free_def sep_def)
  have 3: "unflatten_dict [(''a'', PScalar (SInt 1)), (''a.b'', PScalar (SInt 2))] = Inl TypeError"
    by (simp add: unflatten_dict_def sep_def)
  show ?thesis using 1 2 3 by blast
qed

theorem C10_unflatten_total_without_conflicts_witness:
  "conflict_free [(''database.host'', PScalar (SStr ''localhost'')),
                  (''database.port'', PScalar (SInt 5432)),
                  (''app.name'', PScalar (SStr ''myapp''))]
   \<and> unflatten_dict [(''database.host'', PScalar (SStr ''localhost'')),
                  (''database.port'', PScalar (SInt 5432)),
                  (''app.name'', PScalar (SStr ''myapp''))]
     = Inr [(''database'', PDict [(''host'', PScalar (SStr ''localhost'')),
                                  (''port'', PScalar (SInt 5432))]),
            (''app'', PDict [(''name'', PScalar (SStr ''myapp''))])]"
proof -
  let ?d = "[(''database.host'', PScalar (SStr ''localhost'')),
             (''database.port'', PScalar (SInt 5432)),
             (''app.name'', PScalar (SStr ''myapp''))]"
  have c: "conflict_free ?d" by (simp add: conflict_free_def sep_def)
  have e: "unflatten_dict ?d
     = Inr [(''database'', PDict [(''host'', PScalar (SStr ''localhost'')),
                                  (''port'', PScalar (SInt 5432))]),
            (''app'', PDict [(''name'', PScalar (SStr ''myapp''))])]"
    by code_simp
  have "\<exists>r. unflatten_dict ?d = Inr r"
    using c C10_unflatten_total_without_conflicts [of ?d] by blast
  then show ?thesis using c e by simp
qed

text \<open>In the other order the later, shorter key replaces the dictionary built for the
  longer one.\<close>

lemma unflatten_shorter_key_last:
  "unflatten_dict [(''a.b'', PScalar (SInt 2)), (''a'', PScalar (SInt 1))]
     = Inr [(''a'', PScalar (SInt 1))]"
  by code_simp

section \<open>flatten\_dict computes the flat map of the specification\<close>

lemma length_split: "length (split s) = Suc (count_list s sep)"
  by (induction s) (auto split: list.splits simp: split_nonempty)

lemma spec_segments_split: "spec_segments s = length (split s)"
  by (simp add: spec_segments_def length_split sep_def)

lemma spec_new_key: "(if p = [] then k else p @ ''.'' @ k) = join_key p k"
  by (simp add: join_key_def sep_def)

lemma spec_walk_stop:
  assumes "0 < depth" and "depth \<le> int (length (split (join_key p k)))"
  shows "spec_walk depth p ((k, v) # es) acc = spec_walk depth p es (acc(join_key p k \<mapsto> v))"
  using assms by (simp add: Let_def spec_new_key spec_segments_split del: fun_upd_apply)

lemma spec_walk_descend:
  assumes "\<not> (0 < depth \<and> depth \<le> int (length (split (join_key p k))))" and "sub \<noteq> []"
  shows "spec_walk depth p ((k, PDict sub) # es) acc =
         spec_walk depth p es (acc ++ spec_walk depth (join_key p k) sub Map.empty)"
  using assms by (auto simp: Let_def spec_new_key spec_segments_split simp del: fun_upd_apply)

lemma spec_walk_leaf:
  assumes "\<not> (0 < depth \<and> depth \<le> int (length (split (join_key p k))))"
    and "\<not> nonempty_mapping v"
  shows "spec_walk depth p ((k, v) # es) acc = spec_walk depth p es (acc(join_key p k \<mapsto> v))"
  using assms by (cases v) (auto simp: Let_def spec_new_key spec_segments_split simp del: fun_upd_apply)

declare spec_walk.simps(2) [simp del]

lemma map_of_rev_distinct: "distinct (map fst xs) \<Longrightarrow> map_of (rev xs) = map_of xs"
proof -
  assume d: "distinct (map fst xs)"
  then have "distinct (map fst (rev xs))" by (simp add: rev_map[symmetric])
  moreover have "set (rev xs) = set xs" by simp
  ultimately show ?thesis using d map_of_inject_set by blast
qed

lemma spec_walk_root_depth1:
  "distinct (map fst es) \<Longrightarrow> dom acc \<inter> set (map fst es) = {} \<Longrightarrow>
   spec_walk 1 [] es acc = acc ++ map_of es"
proof (induction es arbitrary: acc)
  case Nil
  then show ?case by simp
next
  case (Cons kv es)
  obtain k v where kv: "kv = (k, v)" by (cases kv)
  have s: "spec_walk 1 [] ((k, v) # es) acc = spec_walk 1 [] es (acc(k \<mapsto> v))"
    using spec_walk_stop[of 1 "[]" k v es acc] length_split_pos[of k]
    by (simp add: join_key_def)
  have d: "distinct (map fst es)" and n: "k \<notin> set (map fst es)"
    using Cons.prems(1) kv by simp_all
  have i: "dom (acc(k \<mapsto> v)) \<inter> set (map fst es) = {}"
    using Cons.prems(2) n kv by auto
  have "spec_walk 1 [] es (acc(k \<mapsto> v)) = acc(k \<mapsto> v) ++ map_of es"
    by (rule Cons.IH[OF d i])
  also have "\<dots> = acc ++ map_of ((k, v) # es)"
  proof
    fix x
    have nk: "map_of es k = None" using n by (simp add: map_of_eq_None_iff)
    show "(acc(k \<mapsto> v) ++ map_of es) x = (acc ++ map_of ((k, v) # es)) x"
      using nk by (cases "x = k") (simp_all add: map_add_def split: option.splits)
  qed
  finally show ?case unfolding kv s .
qed

lemma flatten_refines_spec:
  "(depth = 1 \<and> parent_key = [] \<longrightarrow> distinct (map fst data)) \<Longrightarrow>
     map_of (flatten_dict data depth parent_key) = spec_walk depth parent_key data Map.empty"
  "map_of (flatten_loop data depth parent_key items) =
     spec_walk depth parent_key data (map_of items)"
proof (induction data depth parent_key and data depth parent_key items rule: flatten_induct)
  case (dict data depth parent_key)
  show ?case
  proof (cases "depth = 1 \<and> parent_key = []")
    case True
    then have "distinct (map fst data)" using dict.prems by simp
    from spec_walk_root_depth1[OF this, of Map.empty]
    have "spec_walk 1 [] data Map.empty = map_of data" by simp
    moreover have "flatten_dict data depth parent_key = data"
      using True by (simp add: flatten_dict.simps)
    ultimately show ?thesis using True by simp
  next
    case False
    have "flatten_dict data depth parent_key = flatten_loop data depth parent_key []"
      using False by (auto simp: flatten_dict.simps)
    then show ?thesis using dict.IH[OF False] by simp
  qed
next
  case (nil depth parent_key items)
  show ?case by simp
next
  case (stop key val rest depth parent_key items)
  show ?case
    by (simp only: flatten_loop_stop[OF stop.hyps] spec_walk_stop[OF stop.hyps] stop.IH
        map_of_dict_set)
next
  case (descend key sub rest depth parent_key items)
  let ?nk = "join_key parent_key key"
  have "depth \<noteq> 1" using descend.hyps(1) length_split_pos[of ?nk] by auto
  then have n1: "\<not> (depth = 1 \<and> ?nk = [])" by simp
  have f: "map_of (flatten_dict sub depth ?nk) = spec_walk depth ?nk sub Map.empty"
    using descend.IH(1) n1 by simp
  have "flatten_dict sub depth ?nk = flatten_loop sub depth ?nk []"
    using n1 by (auto simp: flatten_dict.simps)
  then have "distinct (map fst (flatten_dict sub depth ?nk))"
    using distinct_flatten(2)[of "[]" sub depth ?nk] by simp
  then have "map_of (dict_update items (flatten_dict sub depth ?nk))
       = map_of items ++ spec_walk depth ?nk sub Map.empty"
    using f by (simp add: map_of_dict_update map_of_rev_distinct)
  then show ?case
    by (simp only: flatten_loop_descend[OF descend.hyps] spec_walk_descend[OF descend.hyps]
        descend.IH(2))
next
  case (leaf key val rest depth parent_key items)
  show ?case
    by (simp only: flatten_loop_leaf[OF leaf.hyps] spec_walk_leaf[OF leaf.hyps] leaf.IH
        map_of_dict_set)
qed

text \<open>
  C2. For a mapping (its keys differ pairwise), every depth and every path prefix,
  \<open>flatten_dict\<close> returns the flat map that the walk of the specification describes, each
  key once: at the depth limit the entry is bound as it is, a non-empty mapping below the
  limit is walked with the new key as prefix and merged, any other value is bound directly.
  The early return at depth 1 gives the same map as the walk.
\<close>

theorem C2_flatten_follows_spec_walk:
  assumes "distinct (map fst data)"
  shows "map_of (flatten_dict data depth parent_key) = spec_walk depth parent_key data Map.empty
       \<and> map_of (flatten_dict data depth []) = spec_flatten data depth
       \<and> distinct (map fst (flatten_dict data depth parent_key))"
  using assms flatten_refines_spec(1)[of depth parent_key data]
    flatten_refines_spec(1)[of depth "[]" data] distinct_flatten(1)[of data depth parent_key]
  by (simp add: spec_flatten_def)

theorem C2_flatten_follows_spec_walk_witness:
  "distinct (map fst [(''database'', PDict [(''host'', PScalar (SStr ''localhost'')),
                                            (''port'', PDict [(''n'', PScalar (SInt 5432))])]),
                      (''app'', PDict [])])
   \<and> flatten_dict [(''database'', PDict [(''host'', PScalar (SStr ''localhost'')),
                                          (''port'', PDict [(''n'', PScalar (SInt 5432))])]),
                    (''app'', PDict [])] 2 []
      = [(''database.host'', PScalar (SStr ''localhost'')),
         (''database.port'', PDict [(''n'', PScalar (SInt 5432))]),
         (''app'', PDict [])]
   \<and> spec_flatten [(''database'', PDict [(''host'', PScalar (SStr ''localhost'')),
                                          (''port'', PDict [(''n'', PScalar (SInt 5432))])]),
                    (''app'', PDict [])] 2
      = map_of [(''database.host'', PScalar (SStr ''localhost'')),
                (''database.port'', PDict [(''n'', PScalar (SInt 5432))]),
                (''app'', PDict [])]"
proof -
  let ?d = "[(''database'', PDict [(''host'', PScalar (SStr ''localhost'')),
                                   (''port'', PDict [(''n'', PScalar (SInt 5432))])]),
             (''app'', PDict [])]"
  have d: "distinct (map fst ?d)" by simp
  have e: "flatten_dict ?d 2 []
      = [(''database.host'', PScalar (SStr ''localhost'')),
         (''database.port'', PDict [(''n'', PScalar (SInt 5432))]),
         (''app'', PDict [])]"
    by code_simp
  have "map_of (flatten_dict ?d 2 []) = spec_flatten ?d 2"
    using C2_flatten_follows_spec_walk [OF d, of 2 "[]"] by blast
  then show ?thesis using d e by simp
qed

section \<open>Depth 1 copies the mapping\<close>

text \<open>
  C7. At depth 1 \<open>flatten_dict\<close> returns a mapping with exactly the entries of its
  argument. On the store the result is a new object: its address was not in use, so it is
  not the address of the argument; its entries are those of the argument, references
  included, so the copy is shallow; the store is otherwise unchanged, and an assignment to
  the result leaves the argument as it was. No fuel is needed.
\<close>

theorem C7_depth_one_is_shallow_copy:
  "flatten_dict d 1 [] = d
   \<and> (data < length s \<longrightarrow>
        (\<exists>s' r. flatten_dict_st fuel s data 1 [] = Some (s', r)
           \<and> r \<noteq> data \<and> \<not> r < length s \<and> r < length s'
           \<and> s' ! r = s ! data
           \<and> (\<forall>a<length s. s' ! a = s ! a)
           \<and> (s'[r := dict_set (s' ! r) k v]) ! data = s ! data))"
proof -
  have 1: "flatten_dict d 1 [] = d" by (simp add: flatten_dict.simps)
  have 2: "\<exists>s' r. flatten_dict_st fuel s data 1 [] = Some (s', r)
           \<and> r \<noteq> data \<and> \<not> r < length s \<and> r < length s'
           \<and> s' ! r = s ! data
           \<and> (\<forall>a<length s. s' ! a = s ! a)
           \<and> (s'[r := dict_set (s' ! r) k v]) ! data = s ! data" if "data < length s"
    using that by (simp add: alloc_def nth_append)
  show ?thesis using 1 2 by blast
qed

theorem C7_depth_one_is_shallow_copy_witness:
  "(0::nat) < length [[(''database'', ORef 1)], [(''host'', OScalar (SStr ''localhost''))]]
   \<and> flatten_dict_st 0 [[(''database'', ORef 1)], [(''host'', OScalar (SStr ''localhost''))]] 0 1 []
     = Some ([[(''database'', ORef 1)], [(''host'', OScalar (SStr ''localhost''))],
              [(''database'', ORef 1)]], 2)
   \<and> flatten_dict [(''database'', PDict [(''host'', PScalar (SStr ''localhost''))])] 1 []
     = [(''database'', PDict [(''host'', PScalar (SStr ''localhost''))])]"
proof -
  let ?s = "[[(''database'', ORef 1)], [(''host'', OScalar (SStr ''localhost''))]]"
  have l: "(0::nat) < length ?s" by simp
  have e: "flatten_dict_st 0 ?s 0 1 [] = Some (?s @ [[(''database'', ORef 1)]], 2)"
    by (simp add: alloc_def)
  note c = C7_depth_one_is_shallow_copy
      [of "[(''database'', PDict [(''host'', PScalar (SStr ''localhost''))])]" 0 ?s 0
          "''database''" "OScalar SNone"]
  from c l obtain s' r where "flatten_dict_st 0 ?s 0 1 [] = Some (s', r)" "s' ! r = ?s ! 0"
    by blast
  then have "s' ! r = [(''database'', ORef 1)]" by simp
  from c have "flatten_dict [(''database'', PDict [(''host'', PScalar (SStr ''localhost''))])] 1 []
     = [(''database'', PDict [(''host'', PScalar (SStr ''localhost''))])]"
    by blast
  then show ?thesis using l e by simp
qed

section \<open>Union with the empty document\<close>

lemma flatten_dict_Nil: "flatten_dict [] depth parent_key = []"
  by (simp add: flatten_dict.simps)

lemma same_entries:
  assumes "map_of xs = map_of ys" and "distinct (map fst xs)" and "distinct (map fst ys)"
  shows "mset xs = mset ys"
proof -
  have "set xs = set ys" using assms by (simp add: map_of_inject_set)
  moreover have "distinct xs" "distinct ys" using assms(2,3) distinct_map by blast+
  ultimately show ?thesis by (simp add: set_eq_iff_mset_eq_distinct)
qed

lemma union_any_mode:
  "\<exists>ks. result_mapping h a b ''union'' compare_mode depth =
          Inr (assign (\<lambda>k. the ((map_of (flatten_dict b depth []) ++ map_of (flatten_dict a depth [])) k)) ks [])
        \<and> set ks = fst ` set (flatten_dict a depth []) \<union> fst ` set (flatten_dict b depth [])"
proof (cases "compare_mode = ''keys''")
  case True
  then show ?thesis using union_by_keys[of h a b depth] by simp
next
  case False
  then show ?thesis
    using union_by_items[of h a b depth] result_mapping_other_mode[OF False, of h a b "''union''" depth]
    by simp
qed

lemma union_empty_left:
  assumes "distinct (map fst b)"
  shows "\<exists>rm. result_mapping h [] b ''union'' compare_mode depth = Inr rm
           \<and> mset rm = mset (flatten_dict b depth [])"
proof -
  let ?f = "flatten_dict b depth []"
  let ?g = "\<lambda>k. the ((map_of ?f ++ map_of (flatten_dict [] depth [])) k)"
  obtain ks where r: "result_mapping h [] b ''union'' compare_mode depth = Inr (assign ?g ks [])"
    and s: "set ks = fst ` set (flatten_dict [] depth []) \<union> fst ` set ?f"
    using union_any_mode[of h "[]" b compare_mode depth] by blast
  have ks: "set ks = fst ` set ?f" using s by (simp add: flatten_dict_Nil)
  have df: "distinct (map fst ?f)" using assms by (rule distinct_flatten(1))
  have "map_of (assign ?g ks []) = map_of ?f"
  proof
    fix k
    show "map_of (assign ?g ks []) k = map_of ?f k"
    proof (cases "k \<in> set ks")
      case True
      then obtain v where "map_of ?f k = Some v"
        using ks by (cases "map_of ?f k") (auto simp: map_of_eq_None_iff)
      then show ?thesis using True by (simp add: map_of_assign flatten_dict_Nil)
    next
      case False
      then have "map_of ?f k = None" using ks by (simp add: map_of_eq_None_iff)
      then show ?thesis using False by (simp add: map_of_assign)
    qed
  qed
  then have "mset (assign ?g ks []) = mset ?f"
    using df distinct_assign[of "[]" ?g ks] by (intro same_entries) simp_all
  then show ?thesis using r by blast
qed

section \<open>Equality of well-formed values\<close>

lemma scalar_eq_refl: "scalar_eq a a"
  by (cases a) auto

lemma py_eq_refl: "wf_val v \<Longrightarrow> py_eq v v"
proof (induction v)
  case (PScalar a)
  then show ?case by (simp add: scalar_eq_refl)
next
  case (PList xs)
  have "\<forall>x\<in>set xs. py_eq x x" using PList by (auto simp: list_all_iff)
  then show ?case by (simp add: list_all2_same)
next
  case (PDict d)
  have dist: "distinct (map fst d)" using PDict.prems by simp
  have "case map_of d (fst kv) of None \<Rightarrow> False | Some w \<Rightarrow> py_eq (snd kv) w"
    if kv: "kv \<in> set d" for kv
  proof -
    have "map_of d (fst kv) = Some (snd kv)" using dist kv by simp
    moreover have "wf_val (snd kv)" using PDict.prems kv by (auto simp: list_all_iff)
    then have "py_eq (snd kv) (snd kv)"
      using PDict.IH[of kv "snd kv"] kv by (cases kv) auto
    ultimately show ?thesis by simp
  qed
  then show ?case by (simp add: list_all_iff)
qed

lemma py_eq_same_entries:
  assumes "mset r = mset d" and "wf_val (PDict d)"
  shows "py_eq (PDict r) (PDict d)"
proof -
  have dist: "distinct (map fst d)" using assms(2) by simp
  have len: "length r = length d" using assms(1) by (metis size_mset)
  have set: "set r = set d" using assms(1) by (metis set_mset_mset)
  have "case map_of d (fst kv) of None \<Rightarrow> False | Some w \<Rightarrow> py_eq (snd kv) w"
    if kv: "kv \<in> set r" for kv
  proof -
    have in_d: "kv \<in> set d" using kv set by simp
    then have "map_of d (fst kv) = Some (snd kv)" using dist by simp
    moreover have "wf_val (snd kv)" using assms(2) in_d by (auto simp: list_all_iff)
    then have "py_eq (snd kv) (snd kv)" by (rule py_eq_refl)
    ultimately show ?thesis by simp
  qed
  then show ?thesis using len by (simp add: list_all_iff)
qed

section \<open>The empty key at the root\<close>

text \<open>
  C1. The round trip fails on a document that the claim covers: the root binds the empty
  string to a non-empty mapping, no key contains a dot and no mapping is empty. At the root
  \<open>join_key\<close> gives the empty string as the new key, and the recursive call takes it for
  "no parent": the entries of the inner mapping are flattened as if they were at the root,
  and unflattening returns the inner mapping instead of the document. One level down the
  same empty key is kept, since there the parent key is not empty.
\<close>

theorem C1_empty_root_key_is_dropped:
  "flatten_dict [('''', PDict [(''a'', PScalar (SInt 1))])] 0 [] = [(''a'', PScalar (SInt 1))]
   \<and> unflatten_dict (flatten_dict [('''', PDict [(''a'', PScalar (SInt 1))])] 0 [])
       = Inr [(''a'', PScalar (SInt 1))]
   \<and> \<not> py_eq (PDict [(''a'', PScalar (SInt 1))]) (PDict [('''', PDict [(''a'', PScalar (SInt 1))])])
   \<and> unflatten_dict (flatten_dict [(''x'', PDict [('''', PDict [(''a'', PScalar (SInt 1))])])] 0 [])
       = Inr [(''x'', PDict [('''', PDict [(''a'', PScalar (SInt 1))])])]"
  by code_simp

section \<open>unflatten\_dict key by key\<close>

lemma unflatten_loop_paths:
  "unflatten_loop xs res = unflatten_paths (map (\<lambda>kv. (split (fst kv), snd kv)) xs) res"
proof (induction xs arbitrary: res)
  case Nil
  then show ?case by simp
next
  case (Cons kv xs)
  obtain k v where kv: "kv = (k, v)" by (cases kv)
  show ?case using Cons.IH unfolding kv by (cases "set_path (split k) v res") simp_all
qed

lemma set_path_head:
  assumes "set_path (p # ps) w res = Inr res1"
  shows "\<exists>x. res1 = dict_set res p x"
proof (cases ps)
  case Nil
  then show ?thesis using assms by auto
next
  case (Cons q qs)
  from assms[unfolded Cons] show ?thesis
    by (cases rule: set_path_Inr_cases) blast+
qed

lemma set_path_other_key:
  assumes "set_path (p # ps) w res = Inr res1" and "k \<noteq> p"
  shows "map_of res1 k = map_of res k"
proof -
  obtain x where "res1 = dict_set res p x" using set_path_head[OF assms(1)] by blast
  then show ?thesis using assms(2) by (simp add: map_of_dict_set)
qed

lemma set_path_keys:
  assumes "set_path (p # ps) w res = Inr res1"
  shows "set (map fst res1) = insert p (set (map fst res))"
    and "distinct (map fst res) \<Longrightarrow> distinct (map fst res1)"
proof -
  obtain x where x: "res1 = dict_set res p x" using set_path_head[OF assms] by blast
  show "set (map fst res1) = insert p (set (map fst res))"
    unfolding x by (rule keys_dict_set)
  show "distinct (map fst res) \<Longrightarrow> distinct (map fst res1)"
    unfolding x by (rule distinct_dict_set)
qed

lemma unflatten_paths_Cons_Inr:
  assumes "unflatten_paths ((ps, w) # rest) res = Inr r"
  obtains res1 where "set_path ps w res = Inr res1" "unflatten_paths rest res1 = Inr r"
  using assms by (cases "set_path ps w res") simp_all

lemma set_path_nonempty: "set_path ps w res = Inr res1 \<Longrightarrow> ps \<noteq> []"
  by (cases ps) simp_all

lemma unflatten_paths_keys:
  assumes "unflatten_paths P res = Inr r"
  shows "set (map fst r) = set (map fst res) \<union> (\<lambda>pw. hd (fst pw)) ` set P"
    and "distinct (map fst res) \<Longrightarrow> distinct (map fst r)"
  using assms
proof (induction P arbitrary: res)
  case Nil
  { case 1 then show ?case by simp }
  { case 2 then show ?case by simp }
next
  case (Cons pw P)
  obtain ps w where pw: "pw = (ps, w)" by (cases pw)
  { case 1
    from 1[unfolded pw] obtain res1 where s: "set_path ps w res = Inr res1"
      and u: "unflatten_paths P res1 = Inr r" by (rule unflatten_paths_Cons_Inr)
    obtain p ps' where ps: "ps = p # ps'" using set_path_nonempty[OF s] by (cases ps) auto
    have "set (map fst res1) = insert p (set (map fst res))"
      using set_path_keys(1)[OF s[unfolded ps]] .
    then show ?case using Cons.IH(1)[OF u] pw ps by auto }
  { case 2
    from 2(2)[unfolded pw] obtain res1 where s: "set_path ps w res = Inr res1"
      and u: "unflatten_paths P res1 = Inr r" by (rule unflatten_paths_Cons_Inr)
    obtain p ps' where ps: "ps = p # ps'" using set_path_nonempty[OF s] by (cases ps) auto
    have "distinct (map fst res1)" using set_path_keys(2)[OF s[unfolded ps]] 2(1) .
    then show ?case using Cons.IH(2)[OF _ u] by simp }
qed

lemma unflatten_paths_leaf:
  assumes "unflatten_paths P res = Inr r"
    and "\<forall>pw\<in>set P. hd (fst pw) = k \<longrightarrow> pw = ([k], v)"
    and "map_of res k = Some v \<or> (\<exists>pw\<in>set P. hd (fst pw) = k)"
  shows "map_of r k = Some v"
  using assms
proof (induction P arbitrary: res)
  case Nil
  then show ?case by simp
next
  case (Cons pw P)
  obtain ps w where pw: "pw = (ps, w)" by (cases pw)
  from Cons.prems(1)[unfolded pw] obtain res1 where s: "set_path ps w res = Inr res1"
    and u: "unflatten_paths P res1 = Inr r" by (rule unflatten_paths_Cons_Inr)
  obtain p ps' where ps: "ps = p # ps'" using set_path_nonempty[OF s] by (cases ps) auto
  have all: "\<forall>pw\<in>set P. hd (fst pw) = k \<longrightarrow> pw = ([k], v)"
    using Cons.prems(2) by (meson list.set_intros(2))
  show ?case
  proof (cases "p = k")
    case True
    have hk: "hd (fst pw) = k" unfolding pw ps using True by simp
    have "pw \<in> set (pw # P)" by simp
    from bspec[OF Cons.prems(2) this] hk have "pw = ([k], v)" by blast
    then have e: "ps = [k]" "w = v" unfolding pw by simp_all
    have "res1 = dict_set res k v" using s unfolding e by simp
    then have "map_of res1 k = Some v" by (simp add: map_of_dict_set)
    then have "map_of res1 k = Some v \<or> (\<exists>pw\<in>set P. hd (fst pw) = k)" by (rule disjI1)
    from Cons.IH[OF u all this] show ?thesis .
  next
    case False
    then have kp: "k \<noteq> p" by simp
    have m: "map_of res1 k = map_of res k"
      by (rule set_path_other_key[OF s[unfolded ps] kp])
    have nh: "hd (fst pw) \<noteq> k" unfolding pw ps using False by simp
    have "map_of res1 k = Some v \<or> (\<exists>pw\<in>set P. hd (fst pw) = k)"
    proof (rule disjE[OF Cons.prems(3)])
      assume "map_of res k = Some v"
      then show ?thesis unfolding m by (rule disjI1)
    next
      assume "\<exists>x\<in>set (pw # P). hd (fst x) = k"
      then obtain x where x: "x \<in> set (pw # P)" "hd (fst x) = k" by (rule bexE)
      have "x \<noteq> pw" using x(2) nh by blast
      then have "x \<in> set P" using x(1) by simp
      then show ?thesis using x(2) by blast
    qed
    from Cons.IH[OF u all this] show ?thesis .
  qed
qed

lemma tails_Cons_same:
  assumes "ps' \<noteq> []"
  shows "tails k ((k # ps', w) # P) = (ps', w) # tails k P"
  using assms by (simp add: tails_def)

lemma tails_Cons_other:
  assumes "p \<noteq> k"
  shows "tails k ((p # ps', w) # P) = tails k P"
  using assms by (simp add: tails_def)

lemma unflatten_paths_deep:
  assumes "unflatten_paths P res = Inr r"
    and "\<forall>pw\<in>set P. hd (fst pw) = k \<longrightarrow> tl (fst pw) \<noteq> []"
    and "(map_of res k = None \<and> s = []) \<or> map_of res k = Some (PDict s)"
  shows "\<exists>rk. unflatten_paths (tails k P) s = Inr rk
           \<and> (if tails k P = [] then map_of r k = map_of res k
               else map_of r k = Some (PDict rk))"
  using assms
proof (induction P arbitrary: res s)
  case Nil
  then show ?case by (simp add: tails_def)
next
  case (Cons pw P)
  obtain ps w where pw: "pw = (ps, w)" by (cases pw)
  from Cons.prems(1)[unfolded pw] obtain res1 where sp: "set_path ps w res = Inr res1"
    and u: "unflatten_paths P res1 = Inr r" by (rule unflatten_paths_Cons_Inr)
  obtain p ps' where ps: "ps = p # ps'" using set_path_nonempty[OF sp] by (cases ps) auto
  have all: "\<forall>pw\<in>set P. hd (fst pw) = k \<longrightarrow> tl (fst pw) \<noteq> []"
    using Cons.prems(2) by (meson list.set_intros(2))
  show ?case
  proof (cases "p = k")
    case True
    have "pw \<in> set (pw # P)" by simp
    from bspec[OF Cons.prems(2) this] have "ps' \<noteq> []" unfolding pw ps using True by simp
    then obtain q qs where ps': "ps' = q # qs" by (cases ps') auto
    have sp': "set_path (k # q # qs) w res = Inr res1" using sp unfolding ps ps' True .
    have "\<exists>sub. set_path ps' w s = Inr sub \<and> map_of res1 k = Some (PDict sub)"
    proof (rule set_path_Inr_cases[OF sp'])
      fix sub
      assume a: "map_of res k = None" "set_path (q # qs) w [] = Inr sub"
        "res1 = dict_set res k (PDict sub)"
      have "s = []" using Cons.prems(3) a(1) by auto
      then show ?thesis using a(2,3) ps' by (simp add: map_of_dict_set)
    next
      fix old sub
      assume a: "map_of res k = Some (PDict old)" "set_path (q # qs) w old = Inr sub"
        "res1 = dict_set res k (PDict sub)"
      have "s = old" using Cons.prems(3) a(1) by auto
      then show ?thesis using a(2,3) ps' by (simp add: map_of_dict_set)
    qed
    then obtain sub where sub: "set_path ps' w s = Inr sub" "map_of res1 k = Some (PDict sub)"
      by blast
    have "(map_of res1 k = None \<and> sub = []) \<or> map_of res1 k = Some (PDict sub)"
      using sub(2) by (rule disjI2)
    from Cons.IH[OF u all this] obtain rk where
      rk: "unflatten_paths (tails k P) sub = Inr rk"
      "if tails k P = [] then map_of r k = map_of res1 k else map_of r k = Some (PDict rk)"
      by blast
    have t: "tails k (pw # P) = (ps', w) # tails k P"
      unfolding pw ps True by (rule tails_Cons_same[OF \<open>ps' \<noteq> []\<close>])
    have 1: "unflatten_paths (tails k (pw # P)) s = Inr rk"
      unfolding t using sub(1) rk(1) by simp
    have 2: "map_of r k = Some (PDict rk)"
    proof (cases "tails k P = []")
      case True
      then have "rk = sub" using rk(1) by simp
      then show ?thesis using rk(2) True sub(2) by simp
    next
      case False
      then show ?thesis using rk(2) by simp
    qed
    show ?thesis using 1 2 t by auto
  next
    case False
    then have kp: "k \<noteq> p" by simp
    have m: "map_of res1 k = map_of res k"
      by (rule set_path_other_key[OF sp[unfolded ps] kp])
    have h: "(map_of res1 k = None \<and> s = []) \<or> map_of res1 k = Some (PDict s)"
      using Cons.prems(3) unfolding m .
    have t: "tails k (pw # P) = tails k P"
      unfolding pw ps by (rule tails_Cons_other[OF False])
    from Cons.IH[OF u all h] show ?thesis unfolding t m .
  qed
qed

lemma unflatten_paths_untouched:
  assumes "unflatten_paths P res = Inr r" and "\<forall>pw\<in>set P. hd (fst pw) \<noteq> k"
  shows "map_of r k = map_of res k"
  using assms
proof (induction P arbitrary: res)
  case Nil
  then show ?case by simp
next
  case (Cons pw P)
  obtain ps w where pw: "pw = (ps, w)" by (cases pw)
  from Cons.prems(1)[unfolded pw] obtain res1 where sp: "set_path ps w res = Inr res1"
    and u: "unflatten_paths P res1 = Inr r" by (rule unflatten_paths_Cons_Inr)
  obtain p ps' where ps: "ps = p # ps'" using set_path_nonempty[OF sp] by (cases ps) auto
  have all: "\<forall>pw\<in>set P. hd (fst pw) \<noteq> k"
    using Cons.prems(2) by (meson list.set_intros(2))
  have "pw \<in> set (pw # P)" by simp
  from bspec[OF Cons.prems(2) this] have kp: "k \<noteq> p" unfolding pw ps by auto
  have "map_of res1 k = map_of res k"
    by (rule set_path_other_key[OF sp[unfolded ps] kp])
  then show ?case using Cons.IH[OF u all] by simp
qed

section \<open>The parts of the flat keys of a document\<close>

lemma descends_dict: "descends depth lvl v \<Longrightarrow> \<exists>sub. v = PDict sub \<and> sub \<noteq> []"
  by (cases v) (simp_all add: descends_def)

lemma paths_of_Cons_descend:
  assumes "descends depth lvl (PDict sub)"
  shows "paths_of depth lvl ((k, PDict sub) # es) =
         map (\<lambda>pw. (k # fst pw, snd pw)) (paths_of depth (Suc lvl) sub) @ paths_of depth lvl es"
  using assms by simp

lemma paths_of_Cons_leaf:
  assumes "\<not> descends depth lvl v"
  shows "paths_of depth lvl ((k, v) # es) = ([k], v) # paths_of depth lvl es"
  using assms by (cases v) simp_all

declare paths_of.simps(2) [simp del]

lemma paths_of_intro_leaf:
  assumes "(k, v) \<in> set d" and "\<not> descends depth lvl v"
  shows "([k], v) \<in> set (paths_of depth lvl d)"
  using assms(1)
proof (induction d)
  case Nil
  then show ?case by simp
next
  case (Cons kv d)
  obtain k' v' where kv: "kv = (k', v')" by (cases kv)
  show ?case
  proof (cases "kv = (k, v)")
    case True
    have "paths_of depth lvl (kv # d) = ([k], v) # paths_of depth lvl d"
      unfolding True using assms(2) by (rule paths_of_Cons_leaf)
    then show ?thesis by simp
  next
    case False
    then have "(k, v) \<in> set d" using Cons.prems by simp
    then have i: "([k], v) \<in> set (paths_of depth lvl d)" by (rule Cons.IH)
    show ?thesis
    proof (cases "descends depth lvl v'")
      case True
      then obtain sub where sub: "v' = PDict sub" using descends_dict by blast
      show ?thesis unfolding kv sub
        using i paths_of_Cons_descend[OF True[unfolded sub], of k' d] by simp
    next
      case False
      show ?thesis unfolding kv using i paths_of_Cons_leaf[OF False, of k' d] by simp
    qed
  qed
qed

lemma paths_of_intro_deep:
  assumes "(k, PDict sub) \<in> set d" and "descends depth lvl (PDict sub)"
    and "qw \<in> set (paths_of depth (Suc lvl) sub)"
  shows "(k # fst qw, snd qw) \<in> set (paths_of depth lvl d)"
  using assms(1)
proof (induction d)
  case Nil
  then show ?case by simp
next
  case (Cons kv d)
  obtain k' v' where kv: "kv = (k', v')" by (cases kv)
  show ?case
  proof (cases "kv = (k, PDict sub)")
    case True
    have "paths_of depth lvl (kv # d) =
        map (\<lambda>pw. (k # fst pw, snd pw)) (paths_of depth (Suc lvl) sub) @ paths_of depth lvl d"
      unfolding True using assms(2) by (rule paths_of_Cons_descend)
    moreover have "(k # fst qw, snd qw) \<in>
        set (map (\<lambda>pw. (k # fst pw, snd pw)) (paths_of depth (Suc lvl) sub))"
      using assms(3) by (simp add: image_iff) blast
    ultimately show ?thesis by simp
  next
    case False
    then have "(k, PDict sub) \<in> set d" using Cons.prems by simp
    then have i: "(k # fst qw, snd qw) \<in> set (paths_of depth lvl d)" by (rule Cons.IH)
    show ?thesis
    proof (cases "descends depth lvl v'")
      case True
      then obtain sub' where sub: "v' = PDict sub'" using descends_dict by blast
      show ?thesis unfolding kv sub
        using i paths_of_Cons_descend[OF True[unfolded sub], of k' d] by simp
    next
      case False
      show ?thesis unfolding kv using i paths_of_Cons_leaf[OF False, of k' d] by simp
    qed
  qed
qed

lemma paths_of_elim:
  assumes "pw \<in> set (paths_of depth lvl d)"
  shows "(\<exists>k v. (k, v) \<in> set d \<and> \<not> descends depth lvl v \<and> pw = ([k], v))
       \<or> (\<exists>k sub qw. (k, PDict sub) \<in> set d \<and> descends depth lvl (PDict sub)
             \<and> qw \<in> set (paths_of depth (Suc lvl) sub) \<and> pw = (k # fst qw, snd qw))"
  using assms
proof (induction d)
  case Nil
  then show ?case by simp
next
  case (Cons kv d)
  obtain k' v' where kv: "kv = (k', v')" by (cases kv)
  let ?L = "\<lambda>d. \<exists>k v. (k, v) \<in> set d \<and> \<not> descends depth lvl v \<and> pw = ([k], v)"
  let ?D = "\<lambda>d. \<exists>k sub qw. (k, PDict sub) \<in> set d \<and> descends depth lvl (PDict sub)
             \<and> qw \<in> set (paths_of depth (Suc lvl) sub) \<and> pw = (k # fst qw, snd qw)"
  have mono: "?L (kv # d) \<or> ?D (kv # d)" if h: "?L d \<or> ?D d"
  proof (rule disjE[OF h])
    assume "?L d"
    then obtain k v where a: "(k, v) \<in> set d" "\<not> descends depth lvl v" "pw = ([k], v)"
      by blast
    have "(k, v) \<in> set (kv # d)" using a(1) by simp
    then have "?L (kv # d)" using a(2,3) by blast
    then show ?thesis by (rule disjI1)
  next
    assume "?D d"
    then obtain k sub qw where a: "(k, PDict sub) \<in> set d" "descends depth lvl (PDict sub)"
      "qw \<in> set (paths_of depth (Suc lvl) sub)" "pw = (k # fst qw, snd qw)"
      by blast
    have "(k, PDict sub) \<in> set (kv # d)" using a(1) by simp
    then have "?D (kv # d)" using a(2,3,4) by blast
    then show ?thesis by (rule disjI2)
  qed
  show ?case
  proof (cases "descends depth lvl v'")
    case True
    then obtain sub where sub: "v' = PDict sub" using descends_dict by blast
    have e: "paths_of depth lvl (kv # d) =
        map (\<lambda>pw. (k' # fst pw, snd pw)) (paths_of depth (Suc lvl) sub) @ paths_of depth lvl d"
      unfolding kv sub using True[unfolded sub] by (rule paths_of_Cons_descend)
    from Cons.prems[unfolded e] consider
      "pw \<in> set (map (\<lambda>pw. (k' # fst pw, snd pw)) (paths_of depth (Suc lvl) sub))"
      | "pw \<in> set (paths_of depth lvl d)" by auto
    then show ?thesis
    proof cases
      case 1
      then obtain qw where qw: "qw \<in> set (paths_of depth (Suc lvl) sub)"
        "pw = (k' # fst qw, snd qw)" by auto
      have "(k', PDict sub) \<in> set (kv # d)" unfolding kv sub by simp
      then have "?D (kv # d)" using True[unfolded sub] qw by blast
      then show ?thesis by (rule disjI2)
    next
      case 2
      from mono[OF Cons.IH[OF 2]] show ?thesis .
    qed
  next
    case False
    have e: "paths_of depth lvl (kv # d) = ([k'], v') # paths_of depth lvl d"
      unfolding kv using False by (rule paths_of_Cons_leaf)
    from Cons.prems[unfolded e] consider "pw = ([k'], v')" | "pw \<in> set (paths_of depth lvl d)"
      by auto
    then show ?thesis
    proof cases
      case 1
      have "(k', v') \<in> set (kv # d)" unfolding kv by simp
      then have "?L (kv # d)" using False 1 by blast
      then show ?thesis by (rule disjI1)
    next
      case 2
      from mono[OF Cons.IH[OF 2]] show ?thesis .
    qed
  qed
qed

lemma paths_of_head:
  assumes "pw \<in> set (paths_of depth lvl d)"
  shows "fst pw \<noteq> [] \<and> hd (fst pw) \<in> fst ` set d"
proof (rule disjE[OF paths_of_elim[OF assms]])
  assume "\<exists>k v. (k, v) \<in> set d \<and> \<not> descends depth lvl v \<and> pw = ([k], v)"
  then obtain k v where "(k, v) \<in> set d" "pw = ([k], v)" by blast
  then show ?thesis by (simp add: image_iff) (metis fst_conv)
next
  assume "\<exists>k sub qw. (k, PDict sub) \<in> set d \<and> descends depth lvl (PDict sub)
             \<and> qw \<in> set (paths_of depth (Suc lvl) sub) \<and> pw = (k # fst qw, snd qw)"
  then obtain k sub qw where "(k, PDict sub) \<in> set d" "pw = (k # fst qw, snd qw)" by blast
  then show ?thesis by (simp add: image_iff) (metis fst_conv)
qed

lemma paths_of_under_leaf:
  assumes "distinct (map fst d)" and "(k, v) \<in> set d" and "\<not> descends depth lvl v"
    and "pw \<in> set (paths_of depth lvl d)" and "hd (fst pw) = k"
  shows "pw = ([k], v)"
proof (rule disjE[OF paths_of_elim[OF assms(4)]])
  assume "\<exists>k v. (k, v) \<in> set d \<and> \<not> descends depth lvl v \<and> pw = ([k], v)"
  then obtain k' v' where a: "(k', v') \<in> set d" "pw = ([k'], v')" by blast
  have "k' = k" using a(2) assms(5) by simp
  then have "v' = v" using a(1) assms(1,2) by (meson eq_key_imp_eq_value)
  then show ?thesis using a(2) \<open>k' = k\<close> by simp
next
  assume "\<exists>k sub qw. (k, PDict sub) \<in> set d \<and> descends depth lvl (PDict sub)
             \<and> qw \<in> set (paths_of depth (Suc lvl) sub) \<and> pw = (k # fst qw, snd qw)"
  then obtain k' sub qw where a: "(k', PDict sub) \<in> set d" "descends depth lvl (PDict sub)"
      "pw = (k' # fst qw, snd qw)" by blast
  have "k' = k" using a(3) assms(5) by simp
  then have "PDict sub = v" using a(1) assms(1,2) by (meson eq_key_imp_eq_value)
  then show ?thesis using a(2) assms(3) by simp
qed

lemma paths_of_under_deep:
  assumes "distinct (map fst d)" and "(k, PDict sub) \<in> set d"
    and "descends depth lvl (PDict sub)"
    and "pw \<in> set (paths_of depth lvl d)" and "hd (fst pw) = k"
  shows "\<exists>qw\<in>set (paths_of depth (Suc lvl) sub). pw = (k # fst qw, snd qw)"
proof (rule disjE[OF paths_of_elim[OF assms(4)]])
  assume "\<exists>k v. (k, v) \<in> set d \<and> \<not> descends depth lvl v \<and> pw = ([k], v)"
  then obtain k' v' where a: "(k', v') \<in> set d" "\<not> descends depth lvl v'" "pw = ([k'], v')"
    by blast
  have "k' = k" using a(3) assms(5) by simp
  then have "v' = PDict sub" using a(1) assms(1,2) by (meson eq_key_imp_eq_value)
  then show ?thesis using a(2) assms(3) by simp
next
  assume "\<exists>k sub qw. (k, PDict sub) \<in> set d \<and> descends depth lvl (PDict sub)
             \<and> qw \<in> set (paths_of depth (Suc lvl) sub) \<and> pw = (k # fst qw, snd qw)"
  then obtain k' sub' qw where a: "(k', PDict sub') \<in> set d"
      "qw \<in> set (paths_of depth (Suc lvl) sub')" "pw = (k' # fst qw, snd qw)" by blast
  have "k' = k" using a(3) assms(5) by simp
  then have "PDict sub' = PDict sub" using a(1) assms(1,2) by (meson eq_key_imp_eq_value)
  then show ?thesis using a(2,3) \<open>k' = k\<close> by blast
qed

lemma pydict_induct [case_names dict]:
  assumes "\<And>d. (\<And>k sub. (k, PDict sub) \<in> set d \<Longrightarrow> P sub) \<Longrightarrow> P d"
  shows "P d"
proof -
  have "\<forall>d. v = PDict d \<longrightarrow> P d" for v
  proof (induction v)
    case (PScalar a)
    then show ?case by simp
  next
    case (PList xs)
    then show ?case by simp
  next
    case (PDict e)
    have "P sub" if "(k, PDict sub) \<in> set e" for k sub
      using PDict[OF that, of "PDict sub"] by simp
    then have "P e" by (rule assms)
    then show ?case by simp
  qed
  then show ?thesis by blast
qed

lemma wf_val_entry:
  assumes "wf_val (PDict d)" and "(k, v) \<in> set d"
  shows "wf_val v"
  using assms by (auto simp: list_all_iff)

lemma paths_of_nonempty: "d \<noteq> [] \<Longrightarrow> paths_of depth lvl d \<noteq> []"
proof (induction d arbitrary: lvl rule: pydict_induct)
  case (dict d)
  obtain k v es where d: "d = (k, v) # es" using dict.prems by (cases d) auto
  show ?case
  proof (cases "descends depth lvl v")
    case True
    then obtain sub where sub: "v = PDict sub" "sub \<noteq> []" using descends_dict by blast
    have "(k, PDict sub) \<in> set d" using d sub by simp
    from dict.IH[OF this sub(2)] have "paths_of depth (Suc lvl) sub \<noteq> []" .
    then show ?thesis
      unfolding d sub using paths_of_Cons_descend[OF True[unfolded sub], of k es] by simp
  next
    case False
    then show ?thesis unfolding d using paths_of_Cons_leaf[OF False, of k es] by simp
  qed
qed

lemma paths_of_prefix_free:
  assumes "wf_val (PDict d)"
    and "pw \<in> set (paths_of depth lvl d)" and "qw \<in> set (paths_of depth lvl d)"
  shows "\<not> strict_prefix (fst pw) (fst qw)"
  using assms
proof (induction d arbitrary: lvl pw qw rule: pydict_induct)
  case (dict d)
  have dist: "distinct (map fst d)" using dict.prems(1) by simp
  show ?case
  proof
    assume sp: "strict_prefix (fst pw) (fst qw)"
    have np: "fst pw \<noteq> []" and hp: "hd (fst pw) \<in> fst ` set d"
      using paths_of_head[OF dict.prems(2)] by simp_all
    have nq: "fst qw \<noteq> []" using paths_of_head[OF dict.prems(3)] by simp
    obtain k ps where ps: "fst pw = k # ps" using np by (cases "fst pw") auto
    obtain k' qs where qs: "fst qw = k' # qs" using nq by (cases "fst qw") auto
    have kk: "k' = k" and sp': "strict_prefix ps qs"
      using sp unfolding ps qs by (simp_all add: strict_prefix_def)
    obtain v where v: "(k, v) \<in> set d" using hp ps by auto
    show False
    proof (cases "descends depth lvl v")
      case False
      have "pw = ([k], v)"
        by (rule paths_of_under_leaf[OF dist v False dict.prems(2)]) (simp add: ps)
      moreover have "qw = ([k], v)"
        by (rule paths_of_under_leaf[OF dist v False dict.prems(3)]) (simp add: qs kk)
      ultimately show False using sp by simp
    next
      case True
      then obtain sub where sub: "v = PDict sub" using descends_dict by blast
      have vs: "(k, PDict sub) \<in> set d" using v sub by simp
      have ds: "descends depth lvl (PDict sub)" using True sub by simp
      obtain pw' where pw': "pw' \<in> set (paths_of depth (Suc lvl) sub)" "pw = (k # fst pw', snd pw')"
        using paths_of_under_deep[OF dist vs ds dict.prems(2)] ps by auto
      obtain qw' where qw': "qw' \<in> set (paths_of depth (Suc lvl) sub)" "qw = (k # fst qw', snd qw')"
        using paths_of_under_deep[OF dist vs ds dict.prems(3)] qs kk by auto
      have "wf_val (PDict sub)" using wf_val_entry[OF dict.prems(1) vs] .
      from dict.IH[OF vs this pw'(1) qw'(1)] have "\<not> strict_prefix (fst pw') (fst qw')" .
      moreover have "fst pw' = ps" "fst qw' = qs" using pw'(2) qw'(2) ps qs by simp_all
      ultimately show False using sp' by simp
    qed
  qed
qed

lemma unflatten_paths_total:
  assumes "\<forall>pw\<in>set P. walkable (fst pw) res"
    and "\<forall>pw\<in>set P. \<forall>qw\<in>set P. \<not> strict_prefix (fst pw) (fst qw)"
  shows "\<exists>r. unflatten_paths P res = Inr r"
  using assms
proof (induction P arbitrary: res)
  case Nil
  then show ?case by simp
next
  case (Cons pw P)
  obtain ps w where pw: "pw = (ps, w)" by (cases pw)
  have here: "pw \<in> set (pw # P)" by simp
  have "walkable ps res" using bspec[OF Cons.prems(1) here] unfolding pw by simp
  then obtain res1 where s: "set_path ps w res = Inr res1"
    using walkable_set_path by blast
  have w: "\<forall>qw\<in>set P. walkable (fst qw) res1"
  proof
    fix qw assume q: "qw \<in> set P"
    then have q': "qw \<in> set (pw # P)" by simp
    have "walkable (fst qw) res" using bspec[OF Cons.prems(1) q'] .
    moreover have "\<not> strict_prefix ps (fst qw)"
      using bspec[OF bspec[OF Cons.prems(2) here] q'] unfolding pw by simp
    ultimately show "walkable (fst qw) res1" by (rule walkable_preserved[OF s])
  qed
  have c: "\<forall>pw\<in>set P. \<forall>qw\<in>set P. \<not> strict_prefix (fst pw) (fst qw)"
  proof (intro ballI)
    fix a b assume "a \<in> set P" "b \<in> set P"
    then have "a \<in> set (pw # P)" "b \<in> set (pw # P)" by simp_all
    then show "\<not> strict_prefix (fst a) (fst b)" using Cons.prems(2) by blast
  qed
  from Cons.IH[OF w c] show ?case unfolding pw using s by simp
qed

lemma set_tails:
  "set (tails k P) =
     (\<lambda>pw. (tl (fst pw), snd pw)) ` {pw \<in> set P. fst pw \<noteq> [] \<and> hd (fst pw) = k \<and> tl (fst pw) \<noteq> []}"
  by (simp add: tails_def)

lemma tails_paths_of:
  assumes "distinct (map fst d)" and "(k, PDict sub) \<in> set d"
    and "descends depth lvl (PDict sub)"
  shows "set (tails k (paths_of depth lvl d)) = set (paths_of depth (Suc lvl) sub)"
proof
  show "set (tails k (paths_of depth lvl d)) \<subseteq> set (paths_of depth (Suc lvl) sub)"
  proof
    fix x assume "x \<in> set (tails k (paths_of depth lvl d))"
    then obtain pw where pw: "pw \<in> set (paths_of depth lvl d)" "hd (fst pw) = k"
      "x = (tl (fst pw), snd pw)" unfolding set_tails by blast
    obtain qw where qw: "qw \<in> set (paths_of depth (Suc lvl) sub)" "pw = (k # fst qw, snd qw)"
      using paths_of_under_deep[OF assms pw(1,2)] by blast
    have "x = qw" using pw(3) qw(2) by simp
    then show "x \<in> set (paths_of depth (Suc lvl) sub)" using qw(1) by simp
  qed
next
  show "set (paths_of depth (Suc lvl) sub) \<subseteq> set (tails k (paths_of depth lvl d))"
  proof
    fix qw assume q: "qw \<in> set (paths_of depth (Suc lvl) sub)"
    let ?pw = "(k # fst qw, snd qw)"
    have "?pw \<in> set (paths_of depth lvl d)" by (rule paths_of_intro_deep[OF assms(2,3) q])
    moreover have "fst qw \<noteq> []" using paths_of_head[OF q] by simp
    ultimately have "?pw \<in> {pw \<in> set (paths_of depth lvl d).
        fst pw \<noteq> [] \<and> hd (fst pw) = k \<and> tl (fst pw) \<noteq> []}" by simp
    then have "(tl (fst ?pw), snd ?pw) \<in> set (tails k (paths_of depth lvl d))"
      unfolding set_tails by (rule imageI)
    then show "qw \<in> set (tails k (paths_of depth lvl d))" by simp
  qed
qed

lemma tails_cong: "set P = set Q \<Longrightarrow> set (tails k P) = set (tails k Q)"
  by (simp add: set_tails)

section \<open>Unflattening the flat entries of a document, in any order\<close>

lemma paths_of_heads:
  "(\<lambda>pw. hd (fst pw)) ` set (paths_of depth lvl d) = fst ` set d"
proof
  show "(\<lambda>pw. hd (fst pw)) ` set (paths_of depth lvl d) \<subseteq> fst ` set d"
    using paths_of_head by blast
next
  show "fst ` set d \<subseteq> (\<lambda>pw. hd (fst pw)) ` set (paths_of depth lvl d)"
  proof
    fix k assume "k \<in> fst ` set d"
    then obtain v where v: "(k, v) \<in> set d" by auto
    show "k \<in> (\<lambda>pw. hd (fst pw)) ` set (paths_of depth lvl d)"
    proof (cases "descends depth lvl v")
      case False
      have "([k], v) \<in> set (paths_of depth lvl d)" by (rule paths_of_intro_leaf[OF v False])
      then have "hd (fst ([k], v)) \<in> (\<lambda>pw. hd (fst pw)) ` set (paths_of depth lvl d)"
        by (rule imageI)
      then show ?thesis by simp
    next
      case True
      then obtain sub where sub: "v = PDict sub" "sub \<noteq> []" using descends_dict by blast
      obtain qw where qw: "qw \<in> set (paths_of depth (Suc lvl) sub)"
        using paths_of_nonempty[OF sub(2), of depth "Suc lvl"]
        by (cases "paths_of depth (Suc lvl) sub") auto
      have "(k # fst qw, snd qw) \<in> set (paths_of depth lvl d)"
        by (rule paths_of_intro_deep[OF v[unfolded sub(1)] True[unfolded sub(1)] qw])
      then have "hd (fst (k # fst qw, snd qw)) \<in> (\<lambda>pw. hd (fst pw)) ` set (paths_of depth lvl d)"
        by (rule imageI)
      then show ?thesis by simp
    qed
  qed
qed

lemma unflatten_paths_rebuilds:
  assumes "wf_val (PDict d)" and "set P = set (paths_of depth lvl d)"
    and "unflatten_paths P [] = Inr r"
  shows "py_eq (PDict r) (PDict d)"
  using assms
proof (induction d arbitrary: lvl P r rule: pydict_induct)
  case (dict d)
  have dist: "distinct (map fst d)" using dict.prems(1) by simp
  have keys: "set (map fst r) = set (map fst d)"
    using unflatten_paths_keys(1)[OF dict.prems(3)] paths_of_heads[of depth lvl d] dict.prems(2)
    by simp
  have dr: "distinct (map fst r)"
    using unflatten_paths_keys(2)[OF dict.prems(3)] by simp
  have "length (map fst r) = length (map fst d)"
    using keys dist dr by (metis distinct_card)
  then have len: "length r = length d" by simp
  have entry: "case map_of d (fst kw) of None \<Rightarrow> False | Some v \<Rightarrow> py_eq (snd kw) v"
    if kw: "kw \<in> set r" for kw
  proof -
    obtain k w where kwe: "kw = (k, w)" by (cases kw)
    have mr: "map_of r k = Some w" using dr kw kwe by simp
    have "k \<in> set (map fst d)" using keys kw kwe by force
    then obtain v where v: "(k, v) \<in> set d" by auto
    have md: "map_of d k = Some v" using dist v by simp
    have wv: "wf_val v" by (rule wf_val_entry[OF dict.prems(1) v])
    have "py_eq w v"
    proof (cases "descends depth lvl v")
      case False
      have a: "\<forall>pw\<in>set P. hd (fst pw) = k \<longrightarrow> pw = ([k], v)"
        using paths_of_under_leaf[OF dist v False] dict.prems(2) by blast
      have "([k], v) \<in> set P"
        using paths_of_intro_leaf[OF v False] dict.prems(2) by simp
      then have "\<exists>pw\<in>set P. hd (fst pw) = k" by force
      then have b: "map_of [] k = Some v \<or> (\<exists>pw\<in>set P. hd (fst pw) = k)" by (rule disjI2)
      have "map_of r k = Some v" by (rule unflatten_paths_leaf[OF dict.prems(3) a b])
      then have "w = v" using mr by simp
      then show ?thesis using py_eq_refl[OF wv] by simp
    next
      case True
      then obtain sub where sub: "v = PDict sub" using descends_dict by blast
      have vs: "(k, PDict sub) \<in> set d" using v sub by simp
      have ds: "descends depth lvl (PDict sub)" using True sub by simp
      have a: "\<forall>pw\<in>set P. hd (fst pw) = k \<longrightarrow> tl (fst pw) \<noteq> []"
      proof (intro ballI impI)
        fix pw assume "pw \<in> set P" "hd (fst pw) = k"
        then obtain qw where "qw \<in> set (paths_of depth (Suc lvl) sub)" "pw = (k # fst qw, snd qw)"
          using paths_of_under_deep[OF dist vs ds] dict.prems(2) by blast
        then show "tl (fst pw) \<noteq> []" using paths_of_head[of qw depth "Suc lvl" sub] by simp
      qed
      have b: "(map_of [] k = None \<and> ([]::pydict) = []) \<or> map_of [] k = Some (PDict [])"
        by simp
      obtain rk where rk: "unflatten_paths (tails k P) [] = Inr rk"
        "if tails k P = [] then map_of r k = map_of [] k else map_of r k = Some (PDict rk)"
        using unflatten_paths_deep[OF dict.prems(3) a b] by blast
      have st: "set (tails k P) = set (paths_of depth (Suc lvl) sub)"
        using tails_cong[OF dict.prems(2), of k] tails_paths_of[OF dist vs ds] by simp
      have "tails k P \<noteq> []" using rk(2) mr by auto
      then have "map_of r k = Some (PDict rk)" using rk(2) by simp
      then have w: "w = PDict rk" using mr by simp
      have "wf_val (PDict sub)" using wv sub by simp
      from dict.IH[OF vs this st rk(1)] show ?thesis unfolding w sub .
    qed
    then show ?thesis using md kwe by simp
  qed
  show ?case using len entry by (simp add: list_all_iff)
qed

lemma unflatten_paths_succeeds:
  assumes "wf_val (PDict d)" and "set P = set (paths_of depth lvl d)"
  shows "\<exists>r. unflatten_paths P [] = Inr r"
proof (rule unflatten_paths_total)
  show "\<forall>pw\<in>set P. walkable (fst pw) []"
  proof
    fix pw assume "pw \<in> set P"
    then have "fst pw \<noteq> []" using assms(2) paths_of_head by blast
    then show "walkable (fst pw) []" by (rule walkable_fresh)
  qed
next
  show "\<forall>pw\<in>set P. \<forall>qw\<in>set P. \<not> strict_prefix (fst pw) (fst qw)"
    using paths_of_prefix_free[OF assms(1)] assms(2) by blast
qed

section \<open>The flat keys of flatten\_dict, split\<close>

lemma split_join_key: "sep \<notin> set k \<Longrightarrow> split (join_key p k) = parts_of p @ [k]"
  by (simp add: join_key_def parts_of_def split_append split_no_sep)

lemma parts_of_join_key:
  assumes "sep \<notin> set k" and "join_key p k \<noteq> []"
  shows "parts_of (join_key p k) = parts_of p @ [k]"
  using assms split_join_key[OF assms(1), of p] by (simp add: parts_of_def)

lemma dict_update_disjoint:
  assumes "distinct (map fst F)" and "set (map fst F) \<inter> set (map fst items) = {}"
  shows "dict_update items F = items @ F"
  using assms
proof (induction F arbitrary: items)
  case Nil
  then show ?case by (simp add: dict_update_def)
next
  case (Cons kv F)
  have n: "fst kv \<notin> set (map fst items)" using Cons.prems(2) by auto
  have s: "dict_set items (fst kv) (snd kv) = items @ [kv]"
    using dict_set_new[OF n, of "snd kv"] by simp
  have d: "distinct (map fst F)" using Cons.prems(1) by simp
  have i: "set (map fst F) \<inter> set (map fst (items @ [kv])) = {}"
    using Cons.prems by auto
  have "dict_update items (kv # F) = dict_update (items @ [kv]) F"
    using s by (simp add: dict_update_def)
  also have "\<dots> = (items @ [kv]) @ F" by (rule Cons.IH[OF d i])
  finally show ?case by simp
qed

lemma keys_plain_entry:
  assumes "keys_plain depth lvl d" and "(k, v) \<in> set d"
  shows "sep \<notin> set k"
    and "descends depth lvl (PDict sub) \<Longrightarrow> v = PDict sub \<Longrightarrow> keys_plain depth (Suc lvl) sub"
  using assms
proof (induction d)
  case Nil
  { case 1 then show ?case by simp }
  { case 2 then show ?case by simp }
next
  case (Cons kv d)
  obtain k' v' where kv: "kv = (k', v')" by (cases kv)
  { case 1
    show ?case
    proof (cases "kv = (k, v)")
      case True
      then show ?thesis using 1(1) by simp
    next
      case False
      then have "(k, v) \<in> set d" using 1(2) by simp
      moreover have "keys_plain depth lvl d" using 1(1) kv by simp
      ultimately show ?thesis using Cons.IH(1) by blast
    qed }
  { case 2
    show ?case
    proof (cases "kv = (k, v)")
      case True
      then show ?thesis using 2 by simp
    next
      case False
      then have "(k, v) \<in> set d" using 2(4) by simp
      moreover have "keys_plain depth lvl d" using 2(3) kv by simp
      ultimately show ?thesis using Cons.IH(2)[OF 2(1,2)] by blast
    qed }
qed

lemma keys_plain_rest: "keys_plain depth lvl (kv # d) \<Longrightarrow> keys_plain depth lvl d"
  by (cases kv) simp

lemma wf_val_rest: "wf_val (PDict (kv # d)) \<Longrightarrow> wf_val (PDict d)"
  by simp

lemma set_split_keys_append:
  "set (split_keys (xs @ ys)) = set (split_keys xs) \<union> set (split_keys ys)"
  by (simp add: split_keys_def)

lemma set_under_append: "set (under pre (xs @ ys)) = set (under pre xs) \<union> set (under pre ys)"
  by (simp add: under_def)

lemma under_Cons: "under pre (pw # ps) = (pre @ fst pw, snd pw) # under pre ps"
  by (simp add: under_def)

lemma under_under: "under pre (map (\<lambda>pw. (k # fst pw, snd pw)) ps) = under (pre @ [k]) ps"
  by (simp add: under_def)

lemma split_keys_under_prefix:
  assumes "set (split_keys F) = set (under pre ps)" and "key \<in> set (map fst F)"
  shows "prefix pre (split key)"
proof -
  obtain v where "(key, v) \<in> set F" using assms(2) by auto
  then have "(split key, v) \<in> set (split_keys F)" by (force simp: split_keys_def)
  then have "(split key, v) \<in> set (under pre ps)" using assms(1) by simp
  then obtain pw where "split key = pre @ fst pw" by (auto simp: under_def)
  then show ?thesis by simp
qed

lemma prefix_snoc_same:
  assumes "prefix (a @ [x]) l" and "prefix (a @ [y]) l"
  shows "x = y"
proof -
  obtain r where r: "l = (a @ [x]) @ r" using assms(1) by (auto simp: prefix_def)
  obtain r' where r': "l = (a @ [y]) @ r'" using assms(2) by (auto simp: prefix_def)
  from r r' have "x # r = y # r'" by simp
  then show ?thesis by simp
qed

lemma flatten_step_invariant:
  assumes inv: "\<forall>key\<in>set (map fst items). \<forall>k\<in>set (map fst ((key0, v0) # rest)).
                  \<not> prefix (pre @ [k]) (split key)"
    and dist: "distinct (map fst ((key0, v0) # rest))"
    and new: "\<forall>key\<in>set (map fst F). prefix (pre @ [key0]) (split key)"
  shows "\<forall>key\<in>set (map fst (items @ F)). \<forall>k\<in>set (map fst rest).
           \<not> prefix (pre @ [k]) (split key)"
proof (intro ballI)
  fix key k assume key: "key \<in> set (map fst (items @ F))" and k: "k \<in> set (map fst rest)"
  have k': "k \<in> set (map fst ((key0, v0) # rest))" using k by simp
  have ne: "k \<noteq> key0" using dist k by auto
  from key consider "key \<in> set (map fst items)" | "key \<in> set (map fst F)" by auto
  then show "\<not> prefix (pre @ [k]) (split key)"
  proof cases
    case 1
    then show ?thesis using inv k' by blast
  next
    case 2
    then have "prefix (pre @ [key0]) (split key)" using new by blast
    then show ?thesis using prefix_snoc_same[of pre k "split key" key0] ne by blast
  qed
qed

lemma flatten_split_keys:
  "\<not> (depth = 1 \<and> parent_key = []) \<Longrightarrow> wf_val (PDict data) \<Longrightarrow>
   keys_plain depth (Suc (length (parts_of parent_key))) data \<Longrightarrow>
   (parent_key = [] \<longrightarrow> root_ok depth data) \<Longrightarrow>
     set (split_keys (flatten_dict data depth parent_key)) =
     set (under (parts_of parent_key)
            (paths_of depth (Suc (length (parts_of parent_key))) data))"
  "wf_val (PDict data) \<Longrightarrow>
   keys_plain depth (Suc (length (parts_of parent_key))) data \<Longrightarrow>
   (parent_key = [] \<longrightarrow> root_ok depth data) \<Longrightarrow>
   (\<forall>key\<in>set (map fst items). \<forall>k\<in>set (map fst data).
       \<not> prefix (parts_of parent_key @ [k]) (split key)) \<Longrightarrow>
     set (split_keys (flatten_loop data depth parent_key items)) =
     set (split_keys items) \<union>
     set (under (parts_of parent_key)
            (paths_of depth (Suc (length (parts_of parent_key))) data))"
proof (induction data depth parent_key and data depth parent_key items rule: flatten_induct)
  case (dict data depth parent_key)
  have e: "flatten_dict data depth parent_key = flatten_loop data depth parent_key []"
    using dict.prems(1) by (auto simp: flatten_dict.simps)
  have "\<forall>key\<in>set (map fst ([]::pydict)). \<forall>k\<in>set (map fst data).
       \<not> prefix (parts_of parent_key @ [k]) (split key)" by simp
  from dict.IH[OF dict.prems(1,2,3,4) this] show ?case
    unfolding e by (simp add: split_keys_def)
next
  case (nil depth parent_key items)
  show ?case by (simp add: under_def)
next
  case (stop key val rest depth parent_key items)
  let ?pre = "parts_of parent_key"
  let ?lvl = "Suc (length ?pre)"
  let ?nk = "join_key parent_key key"
  have here: "(key, val) \<in> set ((key, val) # rest)" by simp
  have plain: "sep \<notin> set key" by (rule keys_plain_entry(1)[OF stop.prems(2) here])
  have sk: "split ?nk = ?pre @ [key]" by (rule split_join_key[OF plain])
  have dist: "distinct (map fst ((key, val) # rest))" using stop.prems(1) by simp
  have "\<not> descends depth ?lvl val"
    using stop.hyps sk by (simp add: descends_def)
  then have p: "paths_of depth ?lvl ((key, val) # rest) = ([key], val) # paths_of depth ?lvl rest"
    by (rule paths_of_Cons_leaf)
  have "prefix (?pre @ [key]) (split ?nk)" using sk by simp
  then have "?nk \<notin> set (map fst items)" using stop.prems(4) by auto
  then have ds: "dict_set items ?nk val = items @ [(?nk, val)]" by (rule dict_set_new)
  have new: "\<forall>k\<in>set (map fst [(?nk, val)]). prefix (?pre @ [key]) (split k)"
    using sk by simp
  have inv: "\<forall>k'\<in>set (map fst (items @ [(?nk, val)])). \<forall>k\<in>set (map fst rest).
       \<not> prefix (?pre @ [k]) (split k')"
    by (rule flatten_step_invariant[OF stop.prems(4) dist new])
  have r: "parent_key = [] \<longrightarrow> root_ok depth rest"
    using stop.prems(3) by (simp add: root_ok_def)
  have "set (split_keys (flatten_loop rest depth parent_key (items @ [(?nk, val)]))) =
     set (split_keys (items @ [(?nk, val)])) \<union> set (under ?pre (paths_of depth ?lvl rest))"
    using stop.IH[unfolded ds, OF wf_val_rest[OF stop.prems(1)] keys_plain_rest[OF stop.prems(2)]
        r inv] .
  then show ?case
    unfolding flatten_loop_stop[OF stop.hyps] ds p under_Cons
    by (simp add: split_keys_def sk)
next
  case (leaf key val rest depth parent_key items)
  let ?pre = "parts_of parent_key"
  let ?lvl = "Suc (length ?pre)"
  let ?nk = "join_key parent_key key"
  have here: "(key, val) \<in> set ((key, val) # rest)" by simp
  have plain: "sep \<notin> set key" by (rule keys_plain_entry(1)[OF leaf.prems(2) here])
  have sk: "split ?nk = ?pre @ [key]" by (rule split_join_key[OF plain])
  have dist: "distinct (map fst ((key, val) # rest))" using leaf.prems(1) by simp
  have "\<not> descends depth ?lvl val"
    using leaf.hyps(2) by (simp add: descends_def)
  then have p: "paths_of depth ?lvl ((key, val) # rest) = ([key], val) # paths_of depth ?lvl rest"
    by (rule paths_of_Cons_leaf)
  have "prefix (?pre @ [key]) (split ?nk)" using sk by simp
  then have "?nk \<notin> set (map fst items)" using leaf.prems(4) by auto
  then have ds: "dict_set items ?nk val = items @ [(?nk, val)]" by (rule dict_set_new)
  have new: "\<forall>k\<in>set (map fst [(?nk, val)]). prefix (?pre @ [key]) (split k)"
    using sk by simp
  have inv: "\<forall>k'\<in>set (map fst (items @ [(?nk, val)])). \<forall>k\<in>set (map fst rest).
       \<not> prefix (?pre @ [k]) (split k')"
    by (rule flatten_step_invariant[OF leaf.prems(4) dist new])
  have r: "parent_key = [] \<longrightarrow> root_ok depth rest"
    using leaf.prems(3) by (simp add: root_ok_def)
  have "set (split_keys (flatten_loop rest depth parent_key (items @ [(?nk, val)]))) =
     set (split_keys (items @ [(?nk, val)])) \<union> set (under ?pre (paths_of depth ?lvl rest))"
    using leaf.IH[unfolded ds, OF wf_val_rest[OF leaf.prems(1)] keys_plain_rest[OF leaf.prems(2)]
        r inv] .
  then show ?case
    unfolding flatten_loop_leaf[OF leaf.hyps] ds p under_Cons
    by (simp add: split_keys_def sk)
next
  case (descend key sub rest depth parent_key items)
  let ?pre = "parts_of parent_key"
  let ?lvl = "Suc (length ?pre)"
  let ?nk = "join_key parent_key key"
  let ?F = "flatten_dict sub depth ?nk"
  have here: "(key, PDict sub) \<in> set ((key, PDict sub) # rest)" by simp
  have plain: "sep \<notin> set key" by (rule keys_plain_entry(1)[OF descend.prems(2) here])
  have sk: "split ?nk = ?pre @ [key]" by (rule split_join_key[OF plain])
  have dist: "distinct (map fst ((key, PDict sub) # rest))" using descend.prems(1) by simp
  have des: "descends depth ?lvl (PDict sub)"
    using descend.hyps sk by (simp add: descends_def)
  have p: "paths_of depth ?lvl ((key, PDict sub) # rest) =
      map (\<lambda>pw. (key # fst pw, snd pw)) (paths_of depth (Suc ?lvl) sub) @ paths_of depth ?lvl rest"
    using des by (rule paths_of_Cons_descend)
  have nk: "?nk \<noteq> []"
  proof (cases "parent_key = []")
    case True
    then have "root_ok depth ((key, PDict sub) # rest)" using descend.prems(3) by simp
    then have "key = [] \<longrightarrow> \<not> descends depth 1 (PDict sub)" by (simp add: root_ok_def)
    moreover have "descends depth 1 (PDict sub)" using des True by (simp add: parts_of_def)
    ultimately show ?thesis using True by (simp add: join_key_def)
  next
    case False
    then show ?thesis by (simp add: join_key_def)
  qed
  have pn: "parts_of ?nk = ?pre @ [key]" by (rule parts_of_join_key[OF plain nk])
  have wsub: "wf_val (PDict sub)" using descend.prems(1) by simp
  have ksub: "keys_plain depth (Suc (length (parts_of ?nk))) sub"
    unfolding pn using keys_plain_entry(2)[OF descend.prems(2) here des refl] by simp
  have F: "set (split_keys ?F) = set (under (?pre @ [key]) (paths_of depth (Suc ?lvl) sub))"
    using descend.IH(1)[OF _ wsub ksub] nk unfolding pn by simp
  have dF: "distinct (map fst ?F)" using wsub by (simp add: distinct_flatten(1))
  have new: "\<forall>k\<in>set (map fst ?F). prefix (?pre @ [key]) (split k)"
    using split_keys_under_prefix[OF F] by blast
  have disj: "set (map fst ?F) \<inter> set (map fst items) = {}"
  proof (rule ccontr)
    assume "set (map fst ?F) \<inter> set (map fst items) \<noteq> {}"
    then obtain k where k: "k \<in> set (map fst ?F)" "k \<in> set (map fst items)" by blast
    have "prefix (?pre @ [key]) (split k)" using new k(1) by blast
    moreover have "key \<in> set (map fst ((key, PDict sub) # rest))" by simp
    ultimately show False using descend.prems(4) k(2) by blast
  qed
  have du: "dict_update items ?F = items @ ?F" by (rule dict_update_disjoint[OF dF disj])
  have inv: "\<forall>k'\<in>set (map fst (items @ ?F)). \<forall>k\<in>set (map fst rest).
       \<not> prefix (?pre @ [k]) (split k')"
    by (rule flatten_step_invariant[OF descend.prems(4) dist new])
  have r: "parent_key = [] \<longrightarrow> root_ok depth rest"
    using descend.prems(3) by (simp add: root_ok_def)
  have "set (split_keys (flatten_loop rest depth parent_key (items @ ?F))) =
     set (split_keys (items @ ?F)) \<union> set (under ?pre (paths_of depth ?lvl rest))"
    using descend.IH(2)[unfolded du, OF wf_val_rest[OF descend.prems(1)]
        keys_plain_rest[OF descend.prems(2)] r inv] .
  then show ?case
    unfolding flatten_loop_descend[OF descend.hyps] du p set_under_append under_under
      set_split_keys_append F
    by blast
qed

section \<open>The round trip\<close>

lemma under_Nil: "under [] ps = ps"
  by (simp add: under_def)

lemma split_keys_depth1:
  assumes "keys_plain 1 1 d"
  shows "split_keys d = paths_of 1 1 d"
  using assms
proof (induction d)
  case Nil
  then show ?case by (simp add: split_keys_def)
next
  case (Cons kv d)
  obtain k v where kv: "kv = (k, v)" by (cases kv)
  have "\<not> descends 1 1 v" by (simp add: descends_def)
  then have p: "paths_of 1 1 ((k, v) # d) = ([k], v) # paths_of 1 1 d"
    by (rule paths_of_Cons_leaf)
  have "sep \<notin> set k" using Cons.prems kv by simp
  then have "split k = [k]" by (rule split_no_sep)
  moreover have "split_keys d = paths_of 1 1 d"
    using Cons.IH keys_plain_rest[OF Cons.prems] by simp
  ultimately show ?case unfolding kv p by (simp add: split_keys_def)
qed

lemma flatten_split_root:
  assumes "wf_val (PDict d)" and "keys_plain depth 1 d" and "root_ok depth d"
  shows "set (split_keys (flatten_dict d depth [])) = set (paths_of depth 1 d)"
proof (cases "depth = 1")
  case True
  have "flatten_dict d depth [] = d" using True by (simp add: flatten_dict.simps)
  then show ?thesis using split_keys_depth1 assms(2) True by simp
next
  case False
  have n: "\<not> (depth = 1 \<and> ([]::string) = [])" using False by simp
  have k: "keys_plain depth (Suc (length (parts_of []))) d"
    using assms(2) by (simp add: parts_of_def)
  have r: "([]::string) = [] \<longrightarrow> root_ok depth d" using assms(3) by simp
  from flatten_split_keys(1)[OF n assms(1) k r] show ?thesis
    by (simp add: parts_of_def under_Nil)
qed

lemma unflatten_dict_paths: "unflatten_dict xs = unflatten_paths (split_keys xs) []"
  by (simp add: unflatten_dict_def unflatten_loop_paths split_keys_def)

lemma set_split_keys_cong: "set xs = set ys \<Longrightarrow> set (split_keys xs) = set (split_keys ys)"
  by (simp add: split_keys_def)

text \<open>
  For a well-formed document whose joined keys contain no dot and whose root does not bind
  the empty string to a mapping that is walked into, unflattening the entries of
  \<open>flatten_dict\<close>, taken in any order, returns a document equal to the original one. This
  holds for every depth.
\<close>

lemma roundtrip_any_order:
  assumes "wf_val (PDict d)" and "keys_plain depth 1 d" and "root_ok depth d"
    and "set xs = set (flatten_dict d depth [])"
  shows "\<exists>r. unflatten_dict xs = Inr r \<and> py_eq (PDict r) (PDict d)"
proof -
  have s: "set (split_keys xs) = set (paths_of depth 1 d)"
    using set_split_keys_cong[OF assms(4)] flatten_split_root[OF assms(1,2,3)] by simp
  obtain r where r: "unflatten_paths (split_keys xs) [] = Inr r"
    using unflatten_paths_succeeds[OF assms(1) s] by blast
  have "py_eq (PDict r) (PDict d)" by (rule unflatten_paths_rebuilds[OF assms(1) s r])
  then show ?thesis using r unfolding unflatten_dict_paths by blast
qed

lemma roundtrip_unlimited:
  assumes "wf_val (PDict d)" and "keys_plain 0 1 d" and "root_ok 0 d"
  shows "\<exists>r. unflatten_dict (flatten_dict d 0 []) = Inr r \<and> py_eq (PDict r) (PDict d)"
  by (rule roundtrip_any_order[OF assms refl])

section \<open>Union with the empty document, at every depth\<close>

text \<open>
  C5, as amended. For a well-formed mapping \<open>b\<close>, every compare mode and every order in
  which the sets are visited, the union of the empty document and \<open>b\<close> returns, with no
  error: at depth 1 the entries of \<open>b\<close>, a mapping equal to \<open>b\<close>; above depth 1 a mapping
  equal to \<open>b\<close>, when no key of \<open>b\<close> down to the depth contains a dot and the root does
  not bind the empty string to a non-empty mapping; at depth 0 and below the entries of the
  flattened \<open>b\<close>, with dotted keys, since nothing unflattens them.
\<close>

theorem C5_union_with_empty_document:
  assumes "wf_val (PDict b)"
  shows "(\<exists>r. perform_set_operation h [] b ''union'' compare_mode 1 = Inr r
            \<and> mset r = mset b \<and> py_eq (PDict r) (PDict b))
       \<and> (1 < depth \<longrightarrow> keys_plain depth 1 b \<longrightarrow> root_ok depth b \<longrightarrow>
            (\<exists>r. perform_set_operation h [] b ''union'' compare_mode depth = Inr r
               \<and> py_eq (PDict r) (PDict b)))
       \<and> (depth \<le> 0 \<longrightarrow>
            (\<exists>r. perform_set_operation h [] b ''union'' compare_mode depth = Inr r
               \<and> mset r = mset (flatten_dict b depth [])))"
proof -
  have dist: "distinct (map fst b)" using assms by simp
  have rm: "\<exists>rm. result_mapping h [] b ''union'' compare_mode dp = Inr rm
           \<and> mset rm = mset (flatten_dict b dp [])" for dp
    by (rule union_empty_left[OF dist])
  have 1: "\<exists>r. perform_set_operation h [] b ''union'' compare_mode 1 = Inr r
            \<and> mset r = mset b \<and> py_eq (PDict r) (PDict b)"
  proof -
    obtain r where r: "result_mapping h [] b ''union'' compare_mode 1 = Inr r"
      "mset r = mset (flatten_dict b 1 [])" using rm[of 1] by blast
    have m: "mset r = mset b" using r(2) by (simp add: flatten_dict.simps)
    have "perform_set_operation h [] b ''union'' compare_mode 1 = Inr r"
      using r(1) by (simp add: perform_low_depth)
    then show ?thesis using m py_eq_same_entries[OF m assms] by blast
  qed
  have 2: "\<exists>r. perform_set_operation h [] b ''union'' compare_mode depth = Inr r
               \<and> py_eq (PDict r) (PDict b)"
    if d: "1 < depth" and k: "keys_plain depth 1 b" and ro: "root_ok depth b"
  proof -
    obtain rm where r: "result_mapping h [] b ''union'' compare_mode depth = Inr rm"
      "mset rm = mset (flatten_dict b depth [])" using rm[of depth] by blast
    have "set rm = set (flatten_dict b depth [])" using r(2) by (metis set_mset_mset)
    from roundtrip_any_order[OF assms k ro this] obtain u where
      u: "unflatten_dict rm = Inr u" "py_eq (PDict u) (PDict b)" by blast
    have "perform_set_operation h [] b ''union'' compare_mode depth = Inr u"
      using r(1) u(1) d by (simp add: perform_set_operation_def)
    then show ?thesis using u(2) by blast
  qed
  have 3: "\<exists>r. perform_set_operation h [] b ''union'' compare_mode depth = Inr r
               \<and> mset r = mset (flatten_dict b depth [])" if d: "depth \<le> 0"
  proof -
    obtain r where r: "result_mapping h [] b ''union'' compare_mode depth = Inr r"
      "mset r = mset (flatten_dict b depth [])" using rm[of depth] by blast
    have "perform_set_operation h [] b ''union'' compare_mode depth = Inr r"
      using r(1) d by (simp add: perform_low_depth)
    then show ?thesis using r(2) by blast
  qed
  show ?thesis using 1 2 3 by blast
qed

theorem C5_union_with_empty_document_witness:
  "wf_val (PDict [(''database'', PDict [(''host'', PScalar (SStr ''localhost'')),
                                       (''port'', PScalar (SInt 5432))]),
                  (''app'', PDict [(''name'', PScalar (SStr ''myapp''))])])
   \<and> (1::int) < 2
   \<and> keys_plain 2 1 [(''database'', PDict [(''host'', PScalar (SStr ''localhost'')),
                                          (''port'', PScalar (SInt 5432))]),
                     (''app'', PDict [(''name'', PScalar (SStr ''myapp''))])]
   \<and> root_ok 2 [(''database'', PDict [(''host'', PScalar (SStr ''localhost'')),
                                      (''port'', PScalar (SInt 5432))]),
                 (''app'', PDict [(''name'', PScalar (SStr ''myapp''))])]
   \<and> perform_set_operation slot_len []
        [(''database'', PDict [(''host'', PScalar (SStr ''localhost'')),
                              (''port'', PScalar (SInt 5432))]),
         (''app'', PDict [(''name'', PScalar (SStr ''myapp''))])] ''union'' ''kv'' 2
      = Inr [(''app'', PDict [(''name'', PScalar (SStr ''myapp''))]),
             (''database'', PDict [(''host'', PScalar (SStr ''localhost'')),
                                   (''port'', PScalar (SInt 5432))])]
   \<and> py_eq (PDict [(''app'', PDict [(''name'', PScalar (SStr ''myapp''))]),
                    (''database'', PDict [(''host'', PScalar (SStr ''localhost'')),
                                          (''port'', PScalar (SInt 5432))])])
            (PDict [(''database'', PDict [(''host'', PScalar (SStr ''localhost'')),
                                          (''port'', PScalar (SInt 5432))]),
                    (''app'', PDict [(''name'', PScalar (SStr ''myapp''))])])"
proof -
  let ?b = "[(''database'', PDict [(''host'', PScalar (SStr ''localhost'')),
                                  (''port'', PScalar (SInt 5432))]),
             (''app'', PDict [(''name'', PScalar (SStr ''myapp''))])]"
  let ?u = "[(''app'', PDict [(''name'', PScalar (SStr ''myapp''))]),
             (''database'', PDict [(''host'', PScalar (SStr ''localhost'')),
                                   (''port'', PScalar (SInt 5432))])]"
  have w: "wf_val (PDict ?b)" by simp
  have d: "(1::int) < 2" by simp
  have k: "keys_plain 2 1 ?b" by (simp add: sep_def descends_def)
  have r: "root_ok 2 ?b" by (simp add: root_ok_def)
  have e: "perform_set_operation slot_len [] ?b ''union'' ''kv'' 2 = Inr ?u" by code_simp
  obtain u where u: "perform_set_operation slot_len [] ?b ''union'' ''kv'' 2 = Inr u"
    "py_eq (PDict u) (PDict ?b)"
    using C5_union_with_empty_document [OF w, of slot_len "''kv''" 2] d k r by blast
  have "u = ?u" using u(1) e by simp
  then have "py_eq (PDict ?u) (PDict ?b)" using u(2) by simp
  then show ?thesis using w d k r e by blast
qed

text \<open>The claim as stated fails at depth 0 on a nested document: the result keeps the
  dotted key.\<close>

theorem C5_depth_zero_counterexample:
  "perform_set_operation slot0 [] [(''a'', PDict [(''b'', PScalar (SInt 1))])] ''union'' ''kv'' 0
     = Inr [(''a.b'', PScalar (SInt 1))]
   \<and> \<not> py_eq (PDict [(''a.b'', PScalar (SInt 1))]) (PDict [(''a'', PDict [(''b'', PScalar (SInt 1))])])"
  by code_simp

section \<open>Two runs of unflatten\_dict on related flat maps\<close>

lemma unflatten_paths_nonempty:
  assumes "unflatten_paths P res = Inr r"
  shows "\<forall>pw\<in>set P. fst pw \<noteq> []"
  using assms
proof (induction P arbitrary: res)
  case Nil
  then show ?case by simp
next
  case (Cons pw P)
  obtain ps w where pw: "pw = (ps, w)" by (cases pw)
  from Cons.prems[unfolded pw] obtain res1 where s: "set_path ps w res = Inr res1"
    and u: "unflatten_paths P res1 = Inr r" by (rule unflatten_paths_Cons_Inr)
  have "ps \<noteq> []" by (rule set_path_nonempty[OF s])
  then show ?case using Cons.IH[OF u] pw by simp
qed

lemma tails_member:
  "qw \<in> set (tails k P) \<longleftrightarrow> (k # fst qw, snd qw) \<in> set P \<and> fst qw \<noteq> []"
proof
  assume "qw \<in> set (tails k P)"
  then obtain pw where pw: "pw \<in> set P" "fst pw \<noteq> []" "hd (fst pw) = k" "tl (fst pw) \<noteq> []"
    "qw = (tl (fst pw), snd pw)" unfolding set_tails by blast
  have "fst pw = k # tl (fst pw)" using pw(2,3) by (cases "fst pw") auto
  then have "(k # fst qw, snd qw) = pw" using pw(5) by (cases pw) auto
  then show "(k # fst qw, snd qw) \<in> set P \<and> fst qw \<noteq> []" using pw(1,4,5) by simp
next
  assume a: "(k # fst qw, snd qw) \<in> set P \<and> fst qw \<noteq> []"
  let ?pw = "(k # fst qw, snd qw)"
  have "?pw \<in> {pw \<in> set P. fst pw \<noteq> [] \<and> hd (fst pw) = k \<and> tl (fst pw) \<noteq> []}"
    using a by simp
  then have "(tl (fst ?pw), snd ?pw) \<in> set (tails k P)" unfolding set_tails by (rule imageI)
  then show "qw \<in> set (tails k P)" by simp
qed

lemma functional_tails:
  assumes "functional_paths P"
  shows "functional_paths (tails k P)"
  unfolding functional_paths_def
proof (intro ballI impI)
  fix pw qw
  assume p: "pw \<in> set (tails k P)" and q: "qw \<in> set (tails k P)" and e: "fst pw = fst qw"
  have p': "(k # fst pw, snd pw) \<in> set P" using p by (simp add: tails_member)
  have q': "(k # fst qw, snd qw) \<in> set P" using q by (simp add: tails_member)
  have "fst (k # fst pw, snd pw) = fst (k # fst qw, snd qw)" using e by simp
  then have "snd (k # fst pw, snd pw) = snd (k # fst qw, snd qw)"
    using assms p' q' unfolding functional_paths_def by blast
  then show "snd pw = snd qw" by simp
qed

lemma prefix_free_tails:
  assumes "prefix_free_paths P"
  shows "prefix_free_paths (tails k P)"
  unfolding prefix_free_paths_def
proof (intro ballI)
  fix pw qw
  assume p: "pw \<in> set (tails k P)" and q: "qw \<in> set (tails k P)"
  have p': "(k # fst pw, snd pw) \<in> set P" using p by (simp add: tails_member)
  have q': "(k # fst qw, snd qw) \<in> set P" using q by (simp add: tails_member)
  have "\<not> strict_prefix (fst (k # fst pw, snd pw)) (fst (k # fst qw, snd qw))"
    using assms p' q' unfolding prefix_free_paths_def by blast
  then show "\<not> strict_prefix (fst pw) (fst qw)" by (simp add: strict_prefix_def)
qed

lemma related_tails: "related_paths E P Q \<Longrightarrow> related_paths E (tails k P) (tails k Q)"
  unfolding related_paths_def
proof (intro conjI ballI)
  fix pw
  assume r: "(\<forall>pw\<in>set P. \<exists>qw\<in>set Q. fst qw = fst pw \<and> E (snd pw) (snd qw))
      \<and> (\<forall>qw\<in>set Q. \<exists>pw\<in>set P. fst pw = fst qw \<and> E (snd pw) (snd qw))"
    and p: "pw \<in> set (tails k P)"
  have p': "(k # fst pw, snd pw) \<in> set P" "fst pw \<noteq> []" using p tails_member by blast+
  then obtain qw where qw: "qw \<in> set Q" "fst qw = k # fst pw" "E (snd pw) (snd qw)"
    using r by fastforce
  have "(k # fst pw, snd qw) \<in> set Q" using qw(1,2) by (metis prod.collapse)
  then have "(fst pw, snd qw) \<in> set (tails k Q)" using p'(2) by (simp add: tails_member)
  then show "\<exists>qw\<in>set (tails k Q). fst qw = fst pw \<and> E (snd pw) (snd qw)"
    by (rule bexI[rotated]) (simp add: qw(3))
next
  fix qw
  assume r: "(\<forall>pw\<in>set P. \<exists>qw\<in>set Q. fst qw = fst pw \<and> E (snd pw) (snd qw))
      \<and> (\<forall>qw\<in>set Q. \<exists>pw\<in>set P. fst pw = fst qw \<and> E (snd pw) (snd qw))"
    and q: "qw \<in> set (tails k Q)"
  have q': "(k # fst qw, snd qw) \<in> set Q" "fst qw \<noteq> []" using q tails_member by blast+
  then obtain pw where pw: "pw \<in> set P" "fst pw = k # fst qw" "E (snd pw) (snd qw)"
    using r by fastforce
  have "(k # fst qw, snd pw) \<in> set P" using pw(1,2) by (metis prod.collapse)
  then have "(fst qw, snd pw) \<in> set (tails k P)" using q'(2) by (simp add: tails_member)
  then show "\<exists>pw\<in>set (tails k P). fst pw = fst qw \<and> E (snd pw) (snd qw)"
    by (rule bexI[rotated]) (simp add: pw(3))
qed

lemma related_heads:
  assumes "related_paths E P Q"
  shows "(\<lambda>pw. hd (fst pw)) ` set P = (\<lambda>pw. hd (fst pw)) ` set Q"
proof
  show "(\<lambda>pw. hd (fst pw)) ` set P \<subseteq> (\<lambda>pw. hd (fst pw)) ` set Q"
  proof
    fix k assume "k \<in> (\<lambda>pw. hd (fst pw)) ` set P"
    then obtain pw where pw: "pw \<in> set P" "k = hd (fst pw)" by blast
    then obtain qw where "qw \<in> set Q" "fst qw = fst pw"
      using assms unfolding related_paths_def by blast
    then have "hd (fst qw) = k" "qw \<in> set Q" using pw(2) by simp_all
    then show "k \<in> (\<lambda>pw. hd (fst pw)) ` set Q" by (metis imageI)
  qed
next
  show "(\<lambda>pw. hd (fst pw)) ` set Q \<subseteq> (\<lambda>pw. hd (fst pw)) ` set P"
  proof
    fix k assume "k \<in> (\<lambda>pw. hd (fst pw)) ` set Q"
    then obtain qw where qw: "qw \<in> set Q" "k = hd (fst qw)" by blast
    then obtain pw where "pw \<in> set P" "fst pw = fst qw"
      using assms unfolding related_paths_def by blast
    then have "hd (fst pw) = k" "pw \<in> set P" using qw(2) by simp_all
    then show "k \<in> (\<lambda>pw. hd (fst pw)) ` set P" by (metis imageI)
  qed
qed

lemma unflatten_key_leaf:
  assumes u: "unflatten_paths P [] = Inr u"
    and pf: "prefix_free_paths P" and fn: "functional_paths P"
    and leaf: "([k], v) \<in> set P"
  shows "map_of u k = Some v"
proof -
  have ne: "\<forall>pw\<in>set P. fst pw \<noteq> []" by (rule unflatten_paths_nonempty[OF u])
  have a: "\<forall>pw\<in>set P. hd (fst pw) = k \<longrightarrow> pw = ([k], v)"
  proof (intro ballI impI)
    fix pw assume p: "pw \<in> set P" and h: "hd (fst pw) = k"
    have "fst pw \<noteq> []" using ne p by blast
    then have f: "fst pw = k # tl (fst pw)" using h by (cases "fst pw") auto
    have "\<not> strict_prefix (fst ([k], v)) (fst pw)"
      using pf leaf p unfolding prefix_free_paths_def by blast
    then have "tl (fst pw) = []" using f by (cases "tl (fst pw)") (auto simp: strict_prefix_def)
    then have fp: "fst pw = [k]" using f by simp
    then have "fst pw = fst ([k], v)" by simp
    then have "snd pw = snd ([k], v)"
      using fn p leaf unfolding functional_paths_def by blast
    then show "pw = ([k], v)" using fp by (cases pw) simp
  qed
  have "hd (fst ([k], v)) = k" by simp
  then have "\<exists>pw\<in>set P. hd (fst pw) = k" using leaf by blast
  then have b: "map_of [] k = Some v \<or> (\<exists>pw\<in>set P. hd (fst pw) = k)" by (rule disjI2)
  show ?thesis by (rule unflatten_paths_leaf[OF u a b])
qed

lemma unflatten_key_deep:
  assumes u: "unflatten_paths P [] = Inr u"
    and noleaf: "\<forall>v. ([k], v) \<notin> set P"
    and m: "map_of u k = Some w"
  shows "\<exists>rk. unflatten_paths (tails k P) [] = Inr rk \<and> w = PDict rk"
proof -
  have ne: "\<forall>pw\<in>set P. fst pw \<noteq> []" by (rule unflatten_paths_nonempty[OF u])
  have a: "\<forall>pw\<in>set P. hd (fst pw) = k \<longrightarrow> tl (fst pw) \<noteq> []"
  proof (intro ballI impI)
    fix pw assume p: "pw \<in> set P" and h: "hd (fst pw) = k"
    have "fst pw \<noteq> []" using ne p by blast
    then have f: "fst pw = k # tl (fst pw)" using h by (cases "fst pw") auto
    show "tl (fst pw) \<noteq> []"
    proof
      assume "tl (fst pw) = []"
      then have "fst pw = [k]" using f by simp
      then have "pw = ([k], snd pw)" by (cases pw) simp
      then have "([k], snd pw) \<in> set P" using p by simp
      then show False using noleaf by blast
    qed
  qed
  have b: "(map_of [] k = None \<and> ([]::pydict) = []) \<or> map_of [] k = Some (PDict [])"
    by simp
  obtain rk where rk: "unflatten_paths (tails k P) [] = Inr rk"
    "if tails k P = [] then map_of u k = map_of [] k else map_of u k = Some (PDict rk)"
    using unflatten_paths_deep[OF u a b] by blast
  have "tails k P \<noteq> []" using rk(2) m by auto
  then have "map_of u k = Some (PDict rk)" using rk(2) by simp
  then have "w = PDict rk" using m by simp
  then show ?thesis using rk(1) by blast
qed

lemma related_leaf:
  assumes "related_paths E P Q" and "(ps, v) \<in> set P"
  shows "\<exists>v'. (ps, v') \<in> set Q \<and> E v v'"
proof -
  obtain qw where qw: "qw \<in> set Q" "fst qw = fst (ps, v)" "E (snd (ps, v)) (snd qw)"
    using assms unfolding related_paths_def by blast
  have "(ps, snd qw) \<in> set Q" using qw(1,2) by (metis fst_conv prod.collapse)
  then show ?thesis using qw(3) by auto
qed

lemma related_leaf_back:
  assumes "related_paths E P Q" and "(ps, v') \<in> set Q"
  shows "\<exists>v. (ps, v) \<in> set P \<and> E v v'"
proof -
  obtain pw where pw: "pw \<in> set P" "fst pw = fst (ps, v')" "E (snd pw) (snd (ps, v'))"
    using assms unfolding related_paths_def by blast
  have "(ps, snd pw) \<in> set P" using pw(1,2) by (metis fst_conv prod.collapse)
  then show ?thesis using pw(3) by auto
qed

lemma unflatten_paths_related:
  assumes lift: "\<And>u1 u2. distinct (map fst u1) \<Longrightarrow> distinct (map fst u2) \<Longrightarrow>
      set (map fst u1) = set (map fst u2) \<Longrightarrow>
      (\<And>k w1 w2. map_of u1 k = Some w1 \<Longrightarrow> map_of u2 k = Some w2 \<Longrightarrow> E w1 w2) \<Longrightarrow>
      E (PDict u1) (PDict u2)"
  shows "(\<forall>pw\<in>set P. length (fst pw) \<le> n) \<Longrightarrow> related_paths E P Q \<Longrightarrow>
    functional_paths P \<Longrightarrow> functional_paths Q \<Longrightarrow>
    prefix_free_paths P \<Longrightarrow> prefix_free_paths Q \<Longrightarrow>
    unflatten_paths P [] = Inr u1 \<Longrightarrow> unflatten_paths Q [] = Inr u2 \<Longrightarrow>
    E (PDict u1) (PDict u2)"
proof (induction n arbitrary: P Q u1 u2 rule: less_induct)
  case (less n)
  note bound = less.prems(1) and rel = less.prems(2) and fP = less.prems(3)
    and fQ = less.prems(4) and pP = less.prems(5) and pQ = less.prems(6)
    and uP = less.prems(7) and uQ = less.prems(8)
  have d1: "distinct (map fst u1)" using unflatten_paths_keys(2)[OF uP] by simp
  have d2: "distinct (map fst u2)" using unflatten_paths_keys(2)[OF uQ] by simp
  have k1: "set (map fst u1) = (\<lambda>pw. hd (fst pw)) ` set P"
    using unflatten_paths_keys(1)[OF uP] by simp
  have k2: "set (map fst u2) = (\<lambda>pw. hd (fst pw)) ` set Q"
    using unflatten_paths_keys(1)[OF uQ] by simp
  have keys: "set (map fst u1) = set (map fst u2)"
    unfolding k1 k2 by (rule related_heads[OF rel])
  show ?case
  proof (rule lift[OF d1 d2 keys])
    fix k w1 w2
    assume m1: "map_of u1 k = Some w1" and m2: "map_of u2 k = Some w2"
    show "E w1 w2"
    proof (cases "\<exists>v. ([k], v) \<in> set P")
      case True
      then obtain v where v: "([k], v) \<in> set P" by blast
      obtain v' where v': "([k], v') \<in> set Q" "E v v'" using related_leaf[OF rel v] by blast
      have "map_of u1 k = Some v" by (rule unflatten_key_leaf[OF uP pP fP v])
      moreover have "map_of u2 k = Some v'" by (rule unflatten_key_leaf[OF uQ pQ fQ v'(1)])
      ultimately show ?thesis using m1 m2 v'(2) by simp
    next
      case False
      then have nP: "\<forall>v. ([k], v) \<notin> set P" by blast
      have nQ: "\<forall>v. ([k], v) \<notin> set Q"
      proof (intro allI notI)
        fix v' assume "([k], v') \<in> set Q"
        then obtain v where "([k], v) \<in> set P" using related_leaf_back[OF rel] by blast
        then show False using nP by blast
      qed
      obtain rk1 where r1: "unflatten_paths (tails k P) [] = Inr rk1" "w1 = PDict rk1"
        using unflatten_key_deep[OF uP nP m1] by blast
      obtain rk2 where r2: "unflatten_paths (tails k Q) [] = Inr rk2" "w2 = PDict rk2"
        using unflatten_key_deep[OF uQ nQ m2] by blast
      have "(k, w1) \<in> set u1" using m1 by (rule map_of_SomeD)
      then have "fst (k, w1) \<in> fst ` set u1" by (rule imageI)
      then have "k \<in> set (map fst u1)" by simp
      then obtain pw where pw: "pw \<in> set P" "hd (fst pw) = k" unfolding k1 by auto
      have "fst pw \<noteq> []" using unflatten_paths_nonempty[OF uP] pw(1) by blast
      then have "0 < length (fst pw)" by simp
      moreover have "length (fst pw) \<le> n" using bspec[OF bound pw(1)] .
      ultimately have npos: "0 < n" by linarith
      have b: "\<forall>qw\<in>set (tails k P). length (fst qw) \<le> n - 1"
      proof
        fix qw assume "qw \<in> set (tails k P)"
        then have "(k # fst qw, snd qw) \<in> set P" by (simp add: tails_member)
        then have "length (fst (k # fst qw, snd qw)) \<le> n" using bound by blast
        then show "length (fst qw) \<le> n - 1" by simp
      qed
      have lt: "n - 1 < n" using npos by simp
      have "E (PDict rk1) (PDict rk2)"
        by (rule less.IH[OF lt b related_tails[OF rel] functional_tails[OF fP]
              functional_tails[OF fQ] prefix_free_tails[OF pP] prefix_free_tails[OF pQ]
              r1(1) r2(1)])
      then show ?thesis unfolding r1(2) r2(2) .
    qed
  qed
qed

end
